theory Spec2Isabelle
  imports Main "HOL-Library.Char_ord" "HOL-Library.List_Lexorder"
begin

section \<open>Go strings, runes and the random source\<close>

text \<open>
  A Go string is a sequence of bytes; \<^typ>\<open>string\<close> (a list of 8-bit characters) is
  used for it, so \<^term>\<open>length s\<close> is Go's \<open>len(s)\<close>. A rune is a code point.
\<close>

type_synonym rune = nat

definition RuneError :: rune where
  "RuneError = 0xFFFD"

text \<open>Continuation byte test of \<open>unicode/utf8\<close> (\<open>locb = 0x80\<close>, \<open>hicb = 0xBF\<close>).\<close>

definition contb :: "nat \<Rightarrow> bool" where
  "contb b \<longleftrightarrow> 0x80 \<le> b \<and> b \<le> 0xBF"

text \<open>
  \<open>utf8.DecodeRuneInString\<close>, which the \<open>range\<close> clause over a string follows: the
  rune at the head of a non-empty byte sequence, and the number of bytes after the first
  one that it takes. An invalid or short encoding is \<open>RuneError\<close> of width one.
\<close>

fun decodeRune :: "nat \<Rightarrow> nat list \<Rightarrow> rune \<times> nat" where
  "decodeRune s0 rest =
    (if s0 < 0x80 then (s0, 0)
     else if s0 < 0xC2 \<or> 0xF4 < s0 then (RuneError, 0)
     else
       let sz = (if s0 < 0xE0 then 2 else if s0 < 0xF0 then 3 else 4 :: nat);
           lo = (if s0 = 0xE0 then 0xA0 else if s0 = 0xF0 then 0x90 else 0x80 :: nat);
           hi = (if s0 = 0xED then 0x9F else if s0 = 0xF4 then 0x8F else 0xBF :: nat)
       in if Suc (length rest) < sz then (RuneError, 0)
          else
            let s1 = rest ! 0 in
            if s1 < lo \<or> hi < s1 then (RuneError, 0)
            else if sz \<le> 2 then ((s0 mod 0x20) * 0x40 + s1 mod 0x40, 1)
            else
              let s2 = rest ! 1 in
              if \<not> contb s2 then (RuneError, 0)
              else if sz \<le> 3 then ((s0 mod 0x10) * 0x1000 + (s1 mod 0x40) * 0x40 + s2 mod 0x40, 2)
              else
                let s3 = rest ! 2 in
                if \<not> contb s3 then (RuneError, 0)
                else ((s0 mod 0x08) * 0x40000 + (s1 mod 0x40) * 0x1000
                        + (s2 mod 0x40) * 0x40 + s3 mod 0x40, 3))"

text \<open>The runes that \<open>for _, c := range in\<close> yields, in order.\<close>

fun runes :: "string \<Rightarrow> rune list" where
  "runes [] = []"
| "runes (b # bs) =
    (case decodeRune (of_char b) (map of_char bs) of
       (r, extra) \<Rightarrow> r # runes (drop extra bs))"

text \<open>\<open>utf8.AppendRune\<close>, as \<open>strings.Builder.WriteRune\<close> appends a rune.\<close>

definition encodeRune :: "rune \<Rightarrow> string" where
  "encodeRune r =
    (if r \<le> 0x7F then [char_of r]
     else if r \<le> 0x7FF then [char_of (0xC0 + r div 0x40), char_of (0x80 + r mod 0x40)]
     else if 0x10FFFF < r \<or> (0xD800 \<le> r \<and> r \<le> 0xDFFF) then
       [char_of (0xEF::nat), char_of (0xBF::nat), char_of (0xBD::nat)]
     else if r \<le> 0xFFFF then
       [char_of (0xE0 + r div 0x1000), char_of (0x80 + (r div 0x40) mod 0x40),
        char_of (0x80 + r mod 0x40)]
     else
       [char_of (0xF0 + r div 0x40000), char_of (0x80 + (r div 0x1000) mod 0x40),
        char_of (0x80 + (r div 0x40) mod 0x40), char_of (0x80 + r mod 0x40)])"

text \<open>\<open>unicode.IsSpace\<close>: the Latin-1 spaces and the code points of White\_Space.\<close>

definition isSpace :: "rune \<Rightarrow> bool" where
  "isSpace r \<longleftrightarrow>
     (0x09 \<le> r \<and> r \<le> 0x0D) \<or> r = 0x20 \<or> r = 0x85 \<or> r = 0xA0 \<or> r = 0x1680
     \<or> (0x2000 \<le> r \<and> r \<le> 0x200A) \<or> r = 0x2028 \<or> r = 0x2029 \<or> r = 0x202F
     \<or> r = 0x205F \<or> r = 0x3000"

text \<open>The two alphabets of the source.\<close>

definition letters :: string where
  "letters = ''abcdefghijklmnopqrstuvwxyzABCDEFGHIJKLMNOPQRSTUVWXYZ0123456789''"

definition hex :: string where
  "hex = ''0123456789abcdef''"

text \<open>
  A call either returns or panics. The secure random source is an oracle: draw number
  \<open>k\<close> is \<open>None\<close> when the reader fails and a number otherwise, which
  \<open>rand.Int\<close> reduces below its bound. \<open>rand.Int\<close> panics on a bound that is not
  positive.
\<close>

datatype 'a panics = Returns 'a | Panics string

type_synonym randsrc = "nat \<Rightarrow> nat option"

definition rand_Int :: "randsrc \<Rightarrow> nat \<Rightarrow> int \<Rightarrow> int option panics" where
  "rand_Int rnd k mx =
    (if mx \<le> 0 then Panics ''crypto/rand: argument to Int is <= 0''
     else case rnd k of
            None \<Rightarrow> Returns None
          | Some n \<Rightarrow> Returns (Some (int n mod mx)))"

section \<open>obfuscateString\<close>

text \<open>
  The loop of \<open>obfuscateString\<close> over the runes still to visit, with the builder
  \<open>out\<close> and the number \<open>k\<close> of random draws made so far. It returns the built
  string and the new number of draws.
\<close>

fun obfuscateLoop :: "randsrc \<Rightarrow> string \<Rightarrow> rune list \<Rightarrow> nat \<Rightarrow> string \<Rightarrow> (string \<times> nat) panics" where
  "obfuscateLoop rnd dict [] k out = Returns (out, k)"
| "obfuscateLoop rnd dict (c # cs) k out =
    (if isSpace c then obfuscateLoop rnd dict cs k (out @ encodeRune c)
     else case rand_Int rnd k (int (length dict)) of
            Panics m \<Rightarrow> Panics m
          | Returns None \<Rightarrow> Panics ''error generating random number''
          | Returns (Some num) \<Rightarrow> obfuscateLoop rnd dict cs (Suc k) (out @ [dict ! nat num]))"

definition obfuscateString :: "randsrc \<Rightarrow> nat \<Rightarrow> string \<Rightarrow> string \<Rightarrow> (string \<times> nat) panics" where
  "obfuscateString rnd k inp dict = obfuscateLoop rnd dict (runes inp) k []"

text \<open>Two fixed random sources for concrete runs: every draw is 0, or draw \<open>k\<close> is \<open>k\<close>.\<close>

definition zeros :: randsrc where
  "zeros k = Some 0"

definition counting :: randsrc where
  "counting k = Some k"

text \<open>
  What \<open>obfuscateString\<close> writes for one rune \<open>c\<close> of its input: the rune itself for
  a space, and one byte of the alphabet otherwise.
\<close>

definition piece_ok :: "string \<Rightarrow> rune \<Rightarrow> string \<Rightarrow> bool" where
  "piece_ok dict c p = (if isSpace c then p = encodeRune c else (\<exists>x \<in> set dict. p = [x]))"

text \<open>
  The same for a byte \<open>b\<close> of an ASCII input and the byte \<open>x\<close> of the output at its index.
\<close>

definition byte_ok :: "string \<Rightarrow> char \<Rightarrow> char \<Rightarrow> bool" where
  "byte_ok dict b x = (if isSpace (of_char b) then x = b else x \<in> set dict)"


section \<open>The store\<close>

text \<open>
  A column holds an SQL value; a row gives every column name its value (\<open>VNull\<close> for a
  column it does not have); a table is its rows in the order in which the engine visits
  them; a database gives every table name its table.
\<close>

datatype val = VNull | VInt int | VText string | VBlob string

type_synonym row = "string \<Rightarrow> val"
type_synonym database = "string \<Rightarrow> row list"

text \<open>
  The environment of a run: the random source, which statements fail (statement
  number \<open>n\<close> sent to the working store returns an error when \<open>failing n\<close>), and
  whether the export, the opening and the removal of the working copy fail.
\<close>

record env =
  rand_Reader :: randsrc
  failing :: "nat \<Rightarrow> bool"
  vacuum_fails :: bool
  open_fails :: bool
  remove_fails :: bool

text \<open>
  The state of the working store: its tables, the number of random draws made and the
  number of statements sent so far.
\<close>

record st =
  tables :: database
  draws :: nat
  stmts :: nat

text \<open>A Go call that returns \<open>error\<close>: \<open>nil\<close>, an error, or a panic.\<close>

datatype res = Nil | Err string | Panic string

text \<open>Decimal text of an integer, as \<open>CAST(id AS VARCHAR)\<close> and \<open>|| id\<close> give it.\<close>

fun digits :: "nat \<Rightarrow> string" where
  "digits n =
     (if n < 10 then [''0123456789'' ! n] else digits (n div 10) @ [''0123456789'' ! (n mod 10)])"

definition itoa :: "int \<Rightarrow> string" where
  "itoa i = (if i < 0 then CHR ''-'' # digits (nat (- i)) else digits (nat i))"

text \<open>SQL's cast to text and its comparisons; a comparison with \<open>NULL\<close> is not true.\<close>

fun castText :: "val \<Rightarrow> val" where
  "castText VNull = VNull"
| "castText (VInt i) = VText (itoa i)"
| "castText (VText s) = VText s"
| "castText (VBlob b) = VText b"

fun val_eq :: "val \<Rightarrow> val \<Rightarrow> bool" where
  "val_eq (VInt a) (VInt b) = (a = b)"
| "val_eq (VText a) (VText b) = (a = b)"
| "val_eq (VBlob a) (VBlob b) = (a = b)"
| "val_eq _ _ = False"

text \<open>
  \<open>val_gt a b\<close> is \<open>a > b\<close>: integers sort before text and text before blobs, text and
  blobs compare bytewise.
\<close>

fun val_gt :: "val \<Rightarrow> val \<Rightarrow> bool" where
  "val_gt (VInt a) (VInt b) = (b < a)"
| "val_gt (VText a) (VText b) = (b < a)"
| "val_gt (VBlob a) (VBlob b) = (b < a)"
| "val_gt (VText a) (VInt b) = True"
| "val_gt (VBlob a) (VInt b) = True"
| "val_gt (VBlob a) (VText b) = True"
| "val_gt _ _ = False"

text \<open>The row value comparison \<open>(a, b) > (c, d)\<close>.\<close>

definition pair_gt :: "val \<Rightarrow> val \<Rightarrow> val \<Rightarrow> val \<Rightarrow> bool" where
  "pair_gt a b c d \<longleftrightarrow> val_gt a c \<or> (val_eq a c \<and> val_gt b d)"

text \<open>
  \<open>rows.Scan\<close> into an \<open>int\<close>, a \<open>string\<close> and a \<open>sql.NullString\<close>; \<open>None\<close> is
  the error of a value that does not convert. A \<open>NullString\<close> that is not valid is
  \<open>None\<close> inside.
\<close>

fun scanInt :: "val \<Rightarrow> int option" where
  "scanInt (VInt i) = Some i"
| "scanInt _ = None"

fun scanString :: "val \<Rightarrow> string option" where
  "scanString VNull = None"
| "scanString (VInt i) = Some (itoa i)"
| "scanString (VText s) = Some s"
| "scanString (VBlob b) = Some b"

fun scanNullString :: "val \<Rightarrow> string option" where
  "scanNullString VNull = None"
| "scanNullString (VInt i) = Some (itoa i)"
| "scanNullString (VText s) = Some s"
| "scanNullString (VBlob b) = Some b"

text \<open>
  Modelled from the spec: the helper \<open>exec\<close> of the package is not in the sources
  given. A statement is what it does to the database; \<open>exec\<close> sends one: it fails and
  changes nothing when the environment says so, and applies it otherwise.
\<close>

definition exec :: "env \<Rightarrow> (database \<Rightarrow> database) \<Rightarrow> st \<Rightarrow> res \<times> st" where
  "exec E stmt s =
    (if failing E (stmts s) then (Err ''exec'', s\<lparr>stmts := Suc (stmts s)\<rparr>)
     else (Nil, s\<lparr>tables := stmt (tables s), stmts := Suc (stmts s)\<rparr>))"

text \<open>\<open>UPDATE t SET ... WHERE p\<close> and \<open>DELETE FROM t\<close>.\<close>

definition sqlUpdate :: "string \<Rightarrow> (row \<Rightarrow> row) \<Rightarrow> (row \<Rightarrow> bool) \<Rightarrow> database \<Rightarrow> database" where
  "sqlUpdate t f p db = db(t := map (\<lambda>r. if p r then f r else r) (db t))"

definition sqlDelete :: "string \<Rightarrow> database \<Rightarrow> database" where
  "sqlDelete t db = db(t := [])"

text \<open>
  Modelled from the spec: \<open>utils.Do\<close> is not in the sources given; it runs the stages
  strictly in sequence and stops at the first error. A stage that runs out of fuel
  (\<open>None\<close>) never returns, so nothing after it runs.
\<close>

fun utils_Do :: "(st \<Rightarrow> (res \<times> st) option) list \<Rightarrow> st \<Rightarrow> (res \<times> st) option" where
  "utils_Do [] s = Some (Nil, s)"
| "utils_Do (f # fs) s =
    (case f s of
       None \<Rightarrow> None
     | Some (Nil, s') \<Rightarrow> utils_Do fs s'
     | Some (r, s') \<Rightarrow> Some (r, s'))"

text \<open>
  Modelled from the spec: \<open>txn.WithTxn\<close> is not in the sources given; it runs the body
  inside one transaction, commits when the body returns \<open>nil\<close> and rolls the tables
  back to their state at the start when the body fails or panics. The local variables
  \<open>v\<close> that the body assigns are not part of the transaction.
\<close>

definition WithTxn :: "(st \<Rightarrow> ((res \<times> 'v) \<times> st) option) \<Rightarrow> st \<Rightarrow> ((res \<times> 'v) \<times> st) option" where
  "WithTxn body s =
    (case body s of
       None \<Rightarrow> None
     | Some ((Nil, v), s') \<Rightarrow> Some ((Nil, v), s')
     | Some ((r, v), s') \<Rightarrow> Some ((r, v), s'\<lparr>tables := tables s\<rparr>))"

text \<open>
  Modelled from the spec: \<open>queryFunc\<close> is not in the sources given; it sends the query
  and calls \<open>f\<close> on each row of its result in order, stopping at the first error. The
  rows are those the query selects when it is sent. \<open>f\<close> also threads the local
  variables \<open>v\<close> of the enclosing function that the closure assigns.
\<close>

fun eachRow :: "(row \<Rightarrow> 'v \<Rightarrow> st \<Rightarrow> ((res \<times> 'v) \<times> st) option) \<Rightarrow> row list \<Rightarrow> 'v \<Rightarrow> st
    \<Rightarrow> ((res \<times> 'v) \<times> st) option" where
  "eachRow f [] v s = Some ((Nil, v), s)"
| "eachRow f (r # rs) v s =
    (case f r v s of
       None \<Rightarrow> None
     | Some ((Nil, v'), s') \<Rightarrow> eachRow f rs v' s'
     | Some ((e, v'), s') \<Rightarrow> Some ((e, v'), s'))"

definition queryFunc :: "env \<Rightarrow> (database \<Rightarrow> row list) \<Rightarrow>
    (row \<Rightarrow> 'v \<Rightarrow> st \<Rightarrow> ((res \<times> 'v) \<times> st) option) \<Rightarrow> 'v \<Rightarrow> st \<Rightarrow> ((res \<times> 'v) \<times> st) option" where
  "queryFunc E query f v s =
    (if failing E (stmts s) then Some ((Err ''query'', v), s\<lparr>stmts := Suc (stmts s)\<rparr>)
     else eachRow f (query (tables s)) v (s\<lparr>stmts := Suc (stmts s)\<rparr>))"

section \<open>The stages\<close>

text \<open>
  The tables of the table managers and the alias tables are declared outside the sources
  given; they are taken under the names of the schema.
\<close>

text \<open>
  Modelled from the spec: the table managers and table names of the package are declared
  outside the sources given; each table is represented by a name of its own.
\<close>

definition folderTable :: string where "folderTable = ''folders''"
definition fileTable :: string where "fileTable = ''files''"
definition fingerprintTable :: string where "fingerprintTable = ''files_fingerprints''"
definition sceneTable :: string where "sceneTable = ''scenes''"
definition sceneMarkerTable :: string where "sceneMarkerTable = ''scene_markers''"
definition imageTable :: string where "imageTable = ''images''"
definition galleryTable :: string where "galleryTable = ''galleries''"
definition performerTable :: string where "performerTable = ''performers''"
definition studioTable :: string where "studioTable = ''studios''"
definition tagTable :: string where "tagTable = ''tags''"
definition movieTable :: string where "movieTable = ''movies''"
definition performersAliasesTable :: string where "performersAliasesTable = ''performer_aliases''"
definition studioAliasesTable :: string where "studioAliasesTable = ''studio_aliases''"
definition tagAliasesTable :: string where "tagAliasesTable = ''tag_aliases''"

text \<open>\<open>fmt.Errorf("anonymising %s: %w", what, err)\<close> around the result of a statement.\<close>

fun wrapErr :: "string \<Rightarrow> res \<times> st \<Rightarrow> res \<times> st" where
  "wrapErr what (Err e, s) = (Err (''anonymising '' @ what @ '': '' @ e), s)"
| "wrapErr what (r, s) = (r, s)"

text \<open>A call with no local variable to thread, seen as one that threads \<open>()\<close>, and back.\<close>

definition lift :: "(res \<times> st) option \<Rightarrow> ((res \<times> unit) \<times> st) option" where
  "lift x = map_option (\<lambda>(r, s). ((r, ()), s)) x"

definition drop_locals :: "((res \<times> 'v) \<times> st) option \<Rightarrow> (res \<times> st) option" where
  "drop_locals x = map_option (\<lambda>((r, v), s). (r, s)) x"

definition truncateColumn :: "env \<Rightarrow> string \<Rightarrow> string \<Rightarrow> st \<Rightarrow> (res \<times> st) option" where
  "truncateColumn E tableName column s =
     Some (exec E (sqlUpdate tableName (\<lambda>r. r(column := VNull)) (\<lambda>r. True)) s)"

definition truncateTable :: "env \<Rightarrow> string \<Rightarrow> st \<Rightarrow> (res \<times> st) option" where
  "truncateTable E tableName s = Some (exec E (sqlDelete tableName) s)"

definition deleteBlobs :: "env \<Rightarrow> st \<Rightarrow> (res \<times> st) option" where
  "deleteBlobs E =
     utils_Do [
       truncateColumn E ''tags'' ''image_blob'',
       truncateColumn E ''studios'' ''image_blob'',
       truncateColumn E ''performers'' ''image_blob'',
       truncateColumn E ''scenes'' ''cover_blob'',
       truncateColumn E ''movies'' ''front_image_blob'',
       truncateColumn E ''movies'' ''back_image_blob'',
       truncateTable E ''blobs'']"

definition deleteStashIDs :: "env \<Rightarrow> st \<Rightarrow> (res \<times> st) option" where
  "deleteStashIDs E =
     utils_Do [
       truncateTable E ''scene_stash_ids'',
       truncateTable E ''studio_stash_ids'',
       truncateTable E ''performer_stash_ids'']"

text \<open>
  The value of \<open>? || ? || id\<close> in a row: the parent's path, the separator and the text
  of the row's identifier; \<open>NULL\<close> when the identifier is.
\<close>

definition childPath :: "string \<Rightarrow> string \<Rightarrow> val \<Rightarrow> val" where
  "childPath parentPath sep v =
     (case castText v of VText t \<Rightarrow> VText (parentPath @ sep @ t) | w \<Rightarrow> VNull)"

text \<open>The \<open>WHERE\<close> clause on \<open>parent_folder_id\<close> of both statements of the recursion.\<close>

definition childOf :: "int \<Rightarrow> row \<Rightarrow> bool" where
  "childOf parentFolderID r =
     (if parentFolderID = 0 then r ''parent_folder_id'' = VNull
      else val_eq (r ''parent_folder_id'') (VInt parentFolderID))"

text \<open>
  \<open>anonymiseFoldersRecurse\<close>. \<open>sep\<close> is \<open>filepath.Separator\<close>. The depth of the
  recursion is bounded by the fuel; \<open>None\<close> is a recursion that does not end within it.
\<close>

fun anonymiseFoldersRecurse :: "env \<Rightarrow> string \<Rightarrow> nat \<Rightarrow> int \<Rightarrow> string \<Rightarrow> st \<Rightarrow> (res \<times> st) option" where
  "anonymiseFoldersRecurse E sep 0 parentFolderID parentPath s = None"
| "anonymiseFoldersRecurse E sep (Suc fuel) parentFolderID parentPath s =
    (let stmt =
       (if parentFolderID = 0 then
          sqlUpdate folderTable (\<lambda>r. r(''path'' := castText (r ''id''))) (childOf parentFolderID)
        else
          sqlUpdate folderTable (\<lambda>r. r(''path'' := childPath parentPath sep (r ''id'')))
            (childOf parentFolderID))
     in case wrapErr folderTable (exec E stmt s) of
          (Nil, s1) \<Rightarrow>
            drop_locals (queryFunc E (\<lambda>db. filter (childOf parentFolderID) (db folderTable))
              (\<lambda>rows v s2.
                 case (scanInt (rows ''id''), scanString (rows ''path'')) of
                   (Some id', Some path) \<Rightarrow> lift (anonymiseFoldersRecurse E sep fuel id' path s2)
                 | _ \<Rightarrow> Some ((Err ''scan'', v), s2))
              () s1)
        | (e, s1) \<Rightarrow> Some (e, s1))"

definition anonymiseFolders :: "env \<Rightarrow> string \<Rightarrow> nat \<Rightarrow> st \<Rightarrow> (res \<times> st) option" where
  "anonymiseFolders E sep fuel s =
     drop_locals (WithTxn (\<lambda>s. lift (anonymiseFoldersRecurse E sep fuel 0 [] s)) s)"

definition anonymiseFiles :: "env \<Rightarrow> st \<Rightarrow> (res \<times> st) option" where
  "anonymiseFiles E s =
     drop_locals (WithTxn (\<lambda>s. lift (Some (wrapErr fileTable
       (exec E (sqlUpdate fileTable (\<lambda>r. r(''basename'' := castText (r ''id''))) (\<lambda>r. True)) s)))) s)"

section \<open>The paged scans\<close>

text \<open>
  A \<open>goqu.Record\<close> under construction: the columns set so far with their new text, the
  latest assignment first. \<open>applyRecord\<close> is the \<open>SET\<close> clause it gives.
\<close>

type_synonym record_set = "(string \<times> string) list"

definition applyRecord :: "record_set \<Rightarrow> row \<Rightarrow> row" where
  "applyRecord rec r = (\<lambda>c. case map_of rec c of Some v \<Rightarrow> VText v | None \<Rightarrow> r c)"

definition obfuscateNullString :: "env \<Rightarrow> record_set \<Rightarrow> string \<Rightarrow> string option \<Rightarrow> st
    \<Rightarrow> record_set panics \<times> st" where
  "obfuscateNullString E out column inp s =
    (case inp of
       None \<Rightarrow> (Returns out, s)
     | Some str \<Rightarrow>
         (case obfuscateString (rand_Reader E) (draws s) str letters of
            Panics m \<Rightarrow> (Panics m, s)
          | Returns (v, k) \<Rightarrow> (Returns ((column, v) # out), s\<lparr>draws := k\<rparr>)))"

text \<open>
  The calls \<open>db.obfuscateNullString(set, c, row.c)\<close> of a stage for its columns
  \<open>c\<close>, one after the other.
\<close>

fun obfuscateColumns :: "env \<Rightarrow> row \<Rightarrow> string list \<Rightarrow> record_set \<Rightarrow> st \<Rightarrow> record_set panics \<times> st" where
  "obfuscateColumns E rw [] out s = (Returns out, s)"
| "obfuscateColumns E rw (c # cs) out s =
    (case obfuscateNullString E out c (scanNullString (rw c)) s of
       (Panics m, s') \<Rightarrow> (Panics m, s')
     | (Returns out', s') \<Rightarrow> obfuscateColumns E rw cs out' s')"

text \<open>
  The body shared by the stages that patch the row they visit: build the record from the
  row's columns and, when it is not empty, update the row with this identifier.
\<close>

definition patchRow :: "env \<Rightarrow> string \<Rightarrow> string list \<Rightarrow> int \<Rightarrow> row \<Rightarrow> st \<Rightarrow> res \<times> st" where
  "patchRow E table cols id' rw s =
    (case obfuscateColumns E rw cols [] s of
       (Panics m, s1) \<Rightarrow> (Panic m, s1)
     | (Returns rec, s1) \<Rightarrow>
         if rec \<noteq> [] then
           wrapErr table (exec E (sqlUpdate table (applyRecord rec)
             (\<lambda>r. val_eq (r ''id'') (VInt id'))) s1)
         else (Nil, s1))"

definition anonymiseText :: "env \<Rightarrow> string \<Rightarrow> string \<Rightarrow> string \<Rightarrow> st \<Rightarrow> res \<times> st" where
  "anonymiseText E table column val0 s =
    (case obfuscateString (rand_Reader E) (draws s) val0 letters of
       Panics m \<Rightarrow> (Panic m, s)
     | Returns (v, k) \<Rightarrow>
         wrapErr column (exec E (sqlUpdate table (\<lambda>r. r(column := VText v))
           (\<lambda>r. val_eq (r column) (VText val0))) (s\<lparr>draws := k\<rparr>)))"

definition anonymiseFingerprint :: "env \<Rightarrow> string \<Rightarrow> string \<Rightarrow> string \<Rightarrow> st \<Rightarrow> res \<times> st" where
  "anonymiseFingerprint E table column val0 s =
    (case obfuscateString (rand_Reader E) (draws s) val0 hex of
       Panics m \<Rightarrow> (Panic m, s)
     | Returns (v, k) \<Rightarrow>
         wrapErr column (exec E (sqlUpdate table (\<lambda>r. r(column := VText v))
           (\<lambda>r. val_eq (r column) (VText val0))) (s\<lparr>draws := k\<rparr>)))"

text \<open>\<open>if x.Valid { anonymiseText(..., x.String) }\<close> for a scanned \<open>NullString\<close>.\<close>

definition textIfValid :: "env \<Rightarrow> string \<Rightarrow> string \<Rightarrow> val \<Rightarrow> st \<Rightarrow> res \<times> st" where
  "textIfValid E table column v s =
    (case scanNullString v of
       Some str \<Rightarrow> anonymiseText E table column str s
     | None \<Rightarrow> (Nil, s))"

text \<open>One statement after another: the second runs when the first returned \<open>nil\<close>.\<close>

fun andThen :: "res \<times> st \<Rightarrow> (st \<Rightarrow> res \<times> st) \<Rightarrow> res \<times> st" where
  "andThen (Nil, s) f = f s"
| "andThen (e, s) f = (e, s)"

text \<open>
  The loop \<open>for gotSome := true; gotSome; { ... }\<close>. Its body is one page; the local
  variables are the cursor and \<open>gotSome\<close>. \<open>None\<close> is a loop that has not ended
  within the fuel.
\<close>

fun forGotSome :: "nat \<Rightarrow> ('k \<times> bool \<Rightarrow> st \<Rightarrow> ((res \<times> 'k \<times> bool) \<times> st) option) \<Rightarrow> 'k \<times> bool \<Rightarrow> st
    \<Rightarrow> (res \<times> st) option" where
  "forGotSome fuel page (k, False) s = Some (Nil, s)"
| "forGotSome 0 page (k, True) s = None"
| "forGotSome (Suc fuel) page (k, True) s =
    (case page (k, True) s of
       None \<Rightarrow> None
     | Some ((Nil, v), s') \<Rightarrow> forGotSome fuel page v s'
     | Some ((e, v), s') \<Rightarrow> Some (e, s'))"

text \<open>
  The row callback of a scan keyed by \<open>id\<close>: scan the identifier, run the stage's
  statements for the row, then \<open>lastID = id; gotSome = true\<close>. The counter \<open>total\<close>
  only feeds the log and is left out.
\<close>

definition visitByID :: "(int \<Rightarrow> row \<Rightarrow> st \<Rightarrow> res \<times> st) \<Rightarrow> row \<Rightarrow> int \<times> bool \<Rightarrow> st
    \<Rightarrow> ((res \<times> int \<times> bool) \<times> st) option" where
  "visitByID visit rw v s =
    (case scanInt (rw ''id'') of
       None \<Rightarrow> Some ((Err ''scan'', v), s)
     | Some id' \<Rightarrow>
         (case visit id' rw s of
            (Nil, s') \<Rightarrow> Some ((Nil, (id', True)), s')
          | (e, s') \<Rightarrow> Some ((e, v), s')))"

text \<open>The query of a page: \<open>WHERE id > lastID LIMIT 1000\<close>.\<close>

definition queryByID :: "string \<Rightarrow> int \<Rightarrow> database \<Rightarrow> row list" where
  "queryByID table lastID db = take 1000 (filter (\<lambda>r. val_gt (r ''id'') (VInt lastID)) (db table))"

definition pageByID :: "env \<Rightarrow> string \<Rightarrow> (int \<Rightarrow> row \<Rightarrow> st \<Rightarrow> res \<times> st) \<Rightarrow> int \<times> bool \<Rightarrow> st
    \<Rightarrow> ((res \<times> int \<times> bool) \<times> st) option" where
  "pageByID E table visit v =
     WithTxn (queryFunc E (queryByID table (fst v)) (visitByID visit) (fst v, False))"

definition scanByID :: "env \<Rightarrow> nat \<Rightarrow> string \<Rightarrow> (int \<Rightarrow> row \<Rightarrow> st \<Rightarrow> res \<times> st) \<Rightarrow> st \<Rightarrow> (res \<times> st) option" where
  "scanByID E fuel table visit = forGotSome fuel (pageByID E table visit) (0, True)"

text \<open>
  \<open>anonymiseFingerprints\<close>: the cursor is the pair \<open>(lastID, lastType)\<close> and the page
  is \<open>WHERE (file_id, type) > (lastID, lastType) LIMIT 1000\<close>.
\<close>

definition queryFingerprints :: "int \<times> string \<Rightarrow> database \<Rightarrow> row list" where
  "queryFingerprints cur db =
     take 1000 (filter (\<lambda>r. pair_gt (r ''file_id'') (r ''type'') (VInt (fst cur)) (VText (snd cur)))
       (db fingerprintTable))"

definition visitFingerprint :: "env \<Rightarrow> row \<Rightarrow> (int \<times> string) \<times> bool \<Rightarrow> st
    \<Rightarrow> ((res \<times> (int \<times> string) \<times> bool) \<times> st) option" where
  "visitFingerprint E rw v s =
    (case (scanInt (rw ''file_id''), scanString (rw ''type''), scanString (rw ''fingerprint'')) of
       (Some id', Some typ, Some fingerprint) \<Rightarrow>
         (case anonymiseFingerprint E fingerprintTable ''fingerprint'' fingerprint s of
            (Nil, s') \<Rightarrow> Some ((Nil, ((id', typ), True)), s')
          | (e, s') \<Rightarrow> Some ((e, v), s'))
     | _ \<Rightarrow> Some ((Err ''scan'', v), s))"

definition pageFingerprints :: "env \<Rightarrow> (int \<times> string) \<times> bool \<Rightarrow> st
    \<Rightarrow> ((res \<times> (int \<times> string) \<times> bool) \<times> st) option" where
  "pageFingerprints E v =
     WithTxn (queryFunc E (queryFingerprints (fst v)) (visitFingerprint E) (fst v, False))"

definition anonymiseFingerprints :: "env \<Rightarrow> nat \<Rightarrow> st \<Rightarrow> (res \<times> st) option" where
  "anonymiseFingerprints E fuel = forGotSome fuel (pageFingerprints E) ((0, []), True)"

definition anonymiseScenes :: "env \<Rightarrow> nat \<Rightarrow> st \<Rightarrow> (res \<times> st) option" where
  "anonymiseScenes E fuel =
     scanByID E fuel sceneTable (\<lambda>id' rw s.
       andThen (andThen (patchRow E sceneTable [''title'', ''details'', ''url''] id' rw s)
         (textIfValid E sceneTable ''code'' (rw ''code'')))
         (textIfValid E sceneTable ''director'' (rw ''director'')))"

definition anonymiseMarkers :: "env \<Rightarrow> nat \<Rightarrow> st \<Rightarrow> (res \<times> st) option" where
  "anonymiseMarkers E fuel =
     scanByID E fuel sceneMarkerTable (\<lambda>id' rw s.
       case scanString (rw ''title'') of
         None \<Rightarrow> (Err ''scan'', s)
       | Some title \<Rightarrow> anonymiseText E sceneMarkerTable ''title'' title s)"

definition anonymiseImages :: "env \<Rightarrow> nat \<Rightarrow> st \<Rightarrow> (res \<times> st) option" where
  "anonymiseImages E fuel = scanByID E fuel imageTable (patchRow E imageTable [''title'', ''url''])"

definition anonymiseGalleries :: "env \<Rightarrow> nat \<Rightarrow> st \<Rightarrow> (res \<times> st) option" where
  "anonymiseGalleries E fuel =
     scanByID E fuel galleryTable (patchRow E galleryTable [''title'', ''details''])"

text \<open>
  \<open>anonymiseAliases\<close>: the cursor is the pair \<open>(lastID, lastAlias)\<close>; the row visited
  is updated by \<open>WHERE idColumn = id AND alias = alias\<close>, and \<open>lastAlias\<close> is the
  alias as scanned (the empty string for \<open>NULL\<close>).
\<close>

definition queryAliases :: "string \<Rightarrow> string \<Rightarrow> int \<times> string \<Rightarrow> database \<Rightarrow> row list" where
  "queryAliases table idColumn cur db =
     take 1000 (filter (\<lambda>r. pair_gt (r idColumn) (r ''alias'') (VInt (fst cur)) (VText (snd cur)))
       (db table))"

definition visitAlias :: "env \<Rightarrow> string \<Rightarrow> string \<Rightarrow> row \<Rightarrow> (int \<times> string) \<times> bool \<Rightarrow> st
    \<Rightarrow> ((res \<times> (int \<times> string) \<times> bool) \<times> st) option" where
  "visitAlias E table idColumn rw v s =
    (case scanInt (rw idColumn) of
       None \<Rightarrow> Some ((Err ''scan'', v), s)
     | Some id' \<Rightarrow>
         let alias = scanNullString (rw ''alias'') in
         (case obfuscateNullString E [] ''alias'' alias s of
            (Panics m, s1) \<Rightarrow> Some ((Panic m, v), s1)
          | (Returns rec, s1) \<Rightarrow>
              (case (if rec \<noteq> [] then
                       wrapErr table (exec E (sqlUpdate table (applyRecord rec)
                         (\<lambda>r. val_eq (r idColumn) (VInt id')
                             \<and> (case alias of Some a \<Rightarrow> val_eq (r ''alias'') (VText a) | None \<Rightarrow> False)))
                         s1)
                     else (Nil, s1)) of
                 (Nil, s2) \<Rightarrow>
                   Some ((Nil, ((id', case alias of Some a \<Rightarrow> a | None \<Rightarrow> []), True)), s2)
               | (e, s2) \<Rightarrow> Some ((e, v), s2))))"

definition pageAliases :: "env \<Rightarrow> string \<Rightarrow> string \<Rightarrow> (int \<times> string) \<times> bool \<Rightarrow> st
    \<Rightarrow> ((res \<times> (int \<times> string) \<times> bool) \<times> st) option" where
  "pageAliases E table idColumn v =
     WithTxn (queryFunc E (queryAliases table idColumn (fst v)) (visitAlias E table idColumn)
       (fst v, False))"

definition anonymiseAliases :: "env \<Rightarrow> nat \<Rightarrow> string \<Rightarrow> string \<Rightarrow> st \<Rightarrow> (res \<times> st) option" where
  "anonymiseAliases E fuel table idColumn =
     forGotSome fuel (pageAliases E table idColumn) ((0, []), True)"

text \<open>A scan of an entity table followed by the scan of its alias table.\<close>

definition thenAliases :: "(res \<times> st) option \<Rightarrow> (st \<Rightarrow> (res \<times> st) option) \<Rightarrow> (res \<times> st) option" where
  "thenAliases x aliases =
    (case x of
       None \<Rightarrow> None
     | Some (Nil, s') \<Rightarrow> aliases s'
     | Some (e, s') \<Rightarrow> Some (e, s'))"

definition anonymisePerformers :: "env \<Rightarrow> nat \<Rightarrow> st \<Rightarrow> (res \<times> st) option" where
  "anonymisePerformers E fuel s =
     thenAliases
       (scanByID E fuel performerTable (patchRow E performerTable
          [''name'', ''details'', ''url'', ''twitter'', ''instagram'', ''tattoos'', ''piercings'']) s)
       (anonymiseAliases E fuel performersAliasesTable ''performer_id'')"

definition anonymiseStudios :: "env \<Rightarrow> nat \<Rightarrow> st \<Rightarrow> (res \<times> st) option" where
  "anonymiseStudios E fuel s =
     thenAliases
       (scanByID E fuel studioTable (patchRow E studioTable [''name'', ''url'', ''details'']) s)
       (anonymiseAliases E fuel studioAliasesTable ''studio_id'')"

definition anonymiseTags :: "env \<Rightarrow> nat \<Rightarrow> st \<Rightarrow> (res \<times> st) option" where
  "anonymiseTags E fuel s =
     thenAliases
       (scanByID E fuel tagTable (patchRow E tagTable [''name'', ''description'']) s)
       (anonymiseAliases E fuel tagAliasesTable ''tag_id'')"

definition anonymiseMovies :: "env \<Rightarrow> nat \<Rightarrow> st \<Rightarrow> (res \<times> st) option" where
  "anonymiseMovies E fuel =
     scanByID E fuel movieTable (patchRow E movieTable
       [''name'', ''aliases'', ''synopsis'', ''url'', ''director''])"

section \<open>The run\<close>

text \<open>
  The files on disk, each with the database it holds, and the paths with an open handle.
\<close>

record world =
  fs :: "string \<rightharpoonup> database"
  opened :: "string set"

text \<open>The state of a connection that has just been opened on a database.\<close>

definition start :: "database \<Rightarrow> st" where
  "start db = \<lparr>tables = db, draws = 0, stmts = 0\<rparr>"

text \<open>
  \<open>NewAnonymiser\<close>. \<open>db\<close>, the open source store, is the path \<open>src\<close>; the
  \<open>Anonymiser\<close> returned is the path its database is open on. \<open>VACUUM INTO\<close> writes
  the content of the source to \<open>outPath\<close>; it fails when the environment says so and
  when \<open>outPath\<close> exists. \<open>Database.Open\<close> is not in the sources given; it fails
  when the environment says so.
\<close>

definition NewAnonymiser :: "env \<Rightarrow> string \<Rightarrow> string \<Rightarrow> world \<Rightarrow> (string option \<times> res) \<times> world" where
  "NewAnonymiser E src outPath w =
    (case (if vacuum_fails E then None else fs w src, fs w outPath) of
       (Some content, None) \<Rightarrow>
         let w1 = w\<lparr>fs := (fs w)(outPath \<mapsto> content)\<rparr> in
         if open_fails E then ((None, Err (''opening '' @ outPath)), w1)
         else ((Some outPath, Nil), w1\<lparr>opened := insert outPath (opened w1)\<rparr>)
     | _ \<Rightarrow> ((None, Err (''vacuuming into '' @ outPath)), w))"

text \<open>
  Modelled from the spec: \<open>Database.Close\<close> is not in the sources given; it releases
  the handle and leaves the file.
\<close>

definition Close :: "string \<Rightarrow> world \<Rightarrow> world" where
  "Close path w = w\<lparr>opened := opened w - {path}\<rparr>"

text \<open>
  Modelled from the spec: \<open>Database.Remove\<close> is not in the sources given; it closes the
  store and deletes its backing file, and the deletion can fail.
\<close>

definition Remove :: "env \<Rightarrow> string \<Rightarrow> world \<Rightarrow> res \<times> world" where
  "Remove E path w =
    (if remove_fails E then (Err ''remove'', Close path w)
     else (Nil, Close path (w\<lparr>fs := (fs w)(path := None)\<rparr>)))"

text \<open>
  Modelled from the spec: \<open>optimise\<close> is not in the sources given; it is the final
  compaction of the store, which leaves every row as it is and whose outcome is ignored.
\<close>

definition optimise :: "st \<Rightarrow> st" where
  "optimise s = s"

text \<open>What the statements of a connection on \<open>path\<close> have made of the file there.\<close>

definition written :: "string \<Rightarrow> database \<Rightarrow> world \<Rightarrow> world" where
  "written path db w = (case fs w path of None \<Rightarrow> w | Some old \<Rightarrow> w\<lparr>fs := (fs w)(path \<mapsto> db)\<rparr>)"

definition content :: "string \<Rightarrow> world \<Rightarrow> database" where
  "content path w = (case fs w path of None \<Rightarrow> (\<lambda>t. []) | Some db \<Rightarrow> db)"

text \<open>The list of stages that \<open>Anonymise\<close> gives to \<open>utils.Do\<close>.\<close>

definition stages :: "env \<Rightarrow> string \<Rightarrow> nat \<Rightarrow> (st \<Rightarrow> (res \<times> st) option) list" where
  "stages E sep fuel =
     [deleteBlobs E,
      deleteStashIDs E,
      anonymiseFolders E sep fuel,
      anonymiseFiles E,
      anonymiseFingerprints E fuel,
      anonymiseScenes E fuel,
      anonymiseMarkers E fuel,
      anonymiseImages E fuel,
      anonymiseGalleries E fuel,
      anonymisePerformers E fuel,
      anonymiseStudios E fuel,
      anonymiseTags E fuel,
      anonymiseMovies E fuel,
      (\<lambda>s. Some (Nil, optimise s))]"

text \<open>
  \<open>Anonymise\<close> on the store open on \<open>path\<close>. The inner function runs the stages and
  closes the store when it leaves, also by a panic; an error makes \<open>Anonymise\<close> remove
  the store, ignoring the outcome of the removal, and return the error; a panic passes
  through \<open>Anonymise\<close>.
\<close>

definition Anonymise :: "env \<Rightarrow> string \<Rightarrow> nat \<Rightarrow> string \<Rightarrow> world \<Rightarrow> (res \<times> world) option" where
  "Anonymise E sep fuel path w =
    (case utils_Do (stages E sep fuel) (start (content path w)) of
       None \<Rightarrow> None
     | Some (r, s') \<Rightarrow>
         let w1 = Close path (written path (tables s') w) in
         (case r of
            Nil \<Rightarrow> Some (Nil, w1)
          | Err e \<Rightarrow> Some (Err e, snd (Remove E path w1))
          | Panic m \<Rightarrow> Some (Panic m, w1)))"

text \<open>Concrete environments and rows for the examples.\<close>

definition never :: "nat \<Rightarrow> bool" where
  "never n = False"

definition env0 :: env where
  "env0 = \<lparr>rand_Reader = zeros, failing = never, vacuum_fails = False, open_fails = False,
     remove_fails = False\<rparr>"

definition mkRow :: "(string \<times> val) list \<Rightarrow> row" where
  "mkRow kvs c = (case map_of kvs c of Some v \<Rightarrow> v | None \<Rightarrow> VNull)"

definition mkDb :: "(string \<times> row list) list \<Rightarrow> database" where
  "mkDb ts t = (case map_of ts t of Some rows \<Rightarrow> rows | None \<Rightarrow> [])"

definition files_example :: st where
  "files_example = start (mkDb [(''files'',
     [mkRow [(''id'', VInt 5), (''basename'', VText ''holiday.mp4'')],
      mkRow [(''id'', VInt 12), (''basename'', VText ''holiday.mp4'')]])])"

definition first_fails :: "nat \<Rightarrow> bool" where
  "first_fails n = (n = 0)"

definition no_random :: randsrc where
  "no_random k = None"

definition env_open_fails :: env where
  "env_open_fails = env0\<lparr>open_fails := True\<rparr>"

definition env_first_fails :: env where
  "env_first_fails = env0\<lparr>failing := first_fails\<rparr>"

definition env_no_random :: env where
  "env_no_random = env0\<lparr>rand_Reader := no_random\<rparr>"

definition scenes_example :: database where
  "scenes_example = mkDb [(''scenes'',
     [mkRow [(''id'', VInt 1), (''title'', VText ''Fun''), (''code'', VText ''X1'')],
      mkRow [(''id'', VInt 2), (''title'', VText ''Fun''), (''code'', VText ''X1'')]])]"

text \<open>The source alone on disk, and the source with its working copy opened.\<close>

definition world_src :: world where
  "world_src = \<lparr>fs = [''src'' \<mapsto> scenes_example], opened = {''src''}\<rparr>"

definition world_out :: world where
  "world_out = \<lparr>fs = [''src'' \<mapsto> scenes_example, ''out'' \<mapsto> scenes_example],
     opened = {''out'', ''src''}\<rparr>"

text \<open>
  Column \<open>c\<close> of the table \<open>T\<close> is a function of what it was in \<open>T0\<close>, row by row:
  rows that had the same value in \<open>T0\<close> have the same value in \<open>T\<close>.
\<close>

definition col_fun :: "string \<Rightarrow> row list \<Rightarrow> row list \<Rightarrow> bool" where
  "col_fun c T0 T \<longleftrightarrow> (\<exists>g. map (\<lambda>r. r c) T = map (\<lambda>r. g (r c)) T0)"





text \<open>The storage class of a value.\<close>

fun isInt :: "val \<Rightarrow> bool" where
  "isInt (VInt i) = True"
| "isInt v = False"

fun isText :: "val \<Rightarrow> bool" where
  "isText (VText t) = True"
| "isText v = False"





definition selAlias :: "string \<Rightarrow> int \<times> string \<Rightarrow> row \<Rightarrow> bool" where
  "selAlias idColumn k r \<longleftrightarrow> pair_gt (r idColumn) (r ''alias'') (VInt (fst k)) (VText (snd k))"







text \<open>
  A text made only of spaces and of bytes of the alphabet \<open>letters\<close>, as
  \<open>obfuscateString\<close> writes it, and a row whose alias is such a text.
\<close>

definition obfText :: "string \<Rightarrow> bool" where
  "obfText a \<longleftrightarrow> (\<exists>ps. a = concat ps
      \<and> (\<forall>p \<in> set ps. (\<exists>c. isSpace c \<and> p = encodeRune c) \<or> (\<exists>x \<in> set letters. p = [x])))"

definition aliasObf :: "row \<Rightarrow> bool" where
  "aliasObf r \<longleftrightarrow> (\<exists>a. r ''alias'' = VText a \<and> obfText a)"

text \<open>
  The alias table \<open>T\<close> during a scan that started on \<open>T0\<close>: every row is as it
  was or has an obfuscated alias, and the rows at the positions \<open>D\<close> have an
  obfuscated alias. \<open>visitedBy\<close> gives the positions of the rows of \<open>T0\<close> with the
  owner and the alias of one of the rows visited.
\<close>

definition aliasInv :: "row list \<Rightarrow> nat set \<Rightarrow> row list \<Rightarrow> bool" where
  "aliasInv T0 D T \<longleftrightarrow> length T = length T0
     \<and> (\<forall>j < length T0. (T ! j = T0 ! j \<or> aliasObf (T ! j)) \<and> (j \<in> D \<longrightarrow> aliasObf (T ! j)))"

definition visitedBy :: "string \<Rightarrow> row list \<Rightarrow> row list \<Rightarrow> nat set" where
  "visitedBy c T0 rows = {j. j < length T0 \<and> (\<exists>q \<in> set rows. isInt (q c) \<and> isText (q ''alias'')
      \<and> (T0 ! j) c = q c \<and> (T0 ! j) ''alias'' = q ''alias'')}"

text \<open>A store with one alias for a performer, a studio and a tag.\<close>

definition aliases_example :: database where
  "aliases_example = mkDb [
     (''performer_aliases'', [mkRow [(''performer_id'', VInt 1), (''alias'', VText ''bob'')]]),
     (''studio_aliases'', [mkRow [(''studio_id'', VInt 1), (''alias'', VText ''bob'')]]),
     (''tag_aliases'', [mkRow [(''tag_id'', VInt 1), (''alias'', VText ''bob'')]])]"

definition world_aliases :: world where
  "world_aliases = \<lparr>fs = [''out'' \<mapsto> aliases_example], opened = {''out''}\<rparr>"

text \<open>
  The folder table. \<open>fid\<close> is the identifier of a folder row, \<open>parentRel\<close> relates
  the identifier of a folder to that of its parent.
\<close>

definition fid :: "row \<Rightarrow> int" where
  "fid r = (case r ''id'' of VInt i \<Rightarrow> i | _ \<Rightarrow> 0)"

definition parentRel :: "row list \<Rightarrow> (int \<times> int) set" where
  "parentRel T = {(fid r, p) |r p. r \<in> set T \<and> r ''parent_folder_id'' = VInt p}"

text \<open>
  The folder table is a forest: identifiers are integers other than 0 (the value that
  \<open>anonymiseFoldersRecurse\<close> takes for "no parent") and distinct, a parent is
  \<open>NULL\<close> or an integer, and from every folder the parents lead to a root.
\<close>

definition foldersWf :: "row list \<Rightarrow> bool" where
  "foldersWf T \<longleftrightarrow>
     (\<forall>r \<in> set T. isInt (r ''id'') \<and> fid r \<noteq> 0
        \<and> (r ''parent_folder_id'' = VNull \<or> isInt (r ''parent_folder_id'')))
     \<and> distinct (map fid T)
     \<and> (\<forall>r \<in> set T. \<exists>q \<in> set T. q ''parent_folder_id'' = VNull \<and> (fid r, fid q) \<in> (parentRel T)\<^sup>*)"

text \<open>
  The paths of C5: a root has the text of its identifier as path, and a folder with
  parent \<open>p\<close> has the path of the row \<open>p\<close>, the separator and the text of its own
  identifier.
\<close>

definition tree_paths :: "string \<Rightarrow> row list \<Rightarrow> bool" where
  "tree_paths sep T \<longleftrightarrow>
     (\<forall>r \<in> set T.
        (r ''parent_folder_id'' = VNull \<longrightarrow> r ''path'' = VText (itoa (fid r)))
        \<and> (\<forall>p. r ''parent_folder_id'' = VInt p \<longrightarrow>
              (\<exists>q \<in> set T. \<exists>pp. q ''id'' = VInt p \<and> q ''path'' = VText pp
                 \<and> r ''path'' = VText (pp @ sep @ itoa (fid r)))))"

text \<open>
  For the proofs: the table \<open>T0\<close> with the paths given by \<open>\<pi>\<close>, the roots, the row
  callback of the recursion under a name, the paths that a call leaves as they are, and
  the paths below a folder.
\<close>

definition relab :: "row list \<Rightarrow> (int \<Rightarrow> val) \<Rightarrow> row list" where
  "relab T0 \<pi> = map (\<lambda>r. r(''path'' := \<pi> (fid r))) T0"

definition isRoot :: "row list \<Rightarrow> int \<Rightarrow> bool" where
  "isRoot T i \<longleftrightarrow> (\<exists>r \<in> set T. fid r = i \<and> r ''parent_folder_id'' = VNull)"

definition recurseRow :: "env \<Rightarrow> string \<Rightarrow> nat \<Rightarrow> row \<Rightarrow> unit \<Rightarrow> st \<Rightarrow> ((res \<times> unit) \<times> st) option" where
  "recurseRow E sep fuel rows v s2 =
     (case (scanInt (rows ''id''), scanString (rows ''path'')) of
        (Some id', Some path) \<Rightarrow> lift (anonymiseFoldersRecurse E sep fuel id' path s2)
      | _ \<Rightarrow> Some ((Err ''scan'', v), s2))"

definition unchanged_outside :: "row list \<Rightarrow> int set \<Rightarrow> (int \<Rightarrow> val) \<Rightarrow> (int \<Rightarrow> val) \<Rightarrow> bool" where
  "unchanged_outside T0 A \<pi> \<pi>' \<longleftrightarrow>
     (\<forall>r \<in> set T0. (\<forall>a \<in> A. (fid r, a) \<notin> (parentRel T0)\<^sup>+) \<longrightarrow> \<pi>' (fid r) = \<pi> (fid r))"

definition paths_below :: "string \<Rightarrow> row list \<Rightarrow> int \<Rightarrow> (int \<Rightarrow> val) \<Rightarrow> bool" where
  "paths_below sep T0 a \<pi>' \<longleftrightarrow>
     (\<forall>r \<in> set T0. \<forall>p. (fid r, a) \<in> (parentRel T0)\<^sup>+ \<and> r ''parent_folder_id'' = VInt p \<longrightarrow>
        (\<exists>pp. \<pi>' p = VText pp \<and> \<pi>' (fid r) = VText (pp @ sep @ itoa (fid r))))"

text \<open>A root, its subfolder and a subfolder of that.\<close>

definition folders_example :: database where
  "folders_example = mkDb [(''folders'',
     [mkRow [(''id'', VInt 5), (''path'', VText ''/home/a'')],
      mkRow [(''id'', VInt 9), (''parent_folder_id'', VInt 5), (''path'', VText ''/home/a/b'')],
      mkRow [(''id'', VInt 12), (''parent_folder_id'', VInt 9), (''path'', VText ''/home/a/b/c'')]])]"

text \<open>
  Two notions for the run of the folder stage: a table that differs from \<open>T0\<close> in the
  column \<open>path\<close> only, and the folders below a folder, whose number bounds the depth
  of the recursion under it.
\<close>

definition pathsOnly :: "row list \<Rightarrow> row list \<Rightarrow> bool" where
  "pathsOnly T0 T \<longleftrightarrow> list_all2 (\<lambda>r0 r. \<exists>v. r = r0(''path'' := v)) T0 T"

definition below :: "row list \<Rightarrow> int \<Rightarrow> int set" where
  "below T x = {y. (y, x) \<in> (parentRel T)\<^sup>+}"

section \<open>Properties of obfuscateString\<close>

lemma obfuscateLoop_pieces:
  "obfuscateLoop rnd dict cs k out = Returns (res, k') \<Longrightarrow>
     \<exists>ps. res = out @ concat ps \<and> list_all2 (piece_ok dict) cs ps"
proof (induction cs arbitrary: k out)
  case Nil
  then show ?case by simp
next
  case (Cons c cs)
  show ?case
  proof (cases "isSpace c")
    case True
    with Cons.prems have "obfuscateLoop rnd dict cs k (out @ encodeRune c) = Returns (res, k')"
      by simp
    from Cons.IH[OF this] obtain ps where
      ps: "res = (out @ encodeRune c) @ concat ps" "list_all2 (piece_ok dict) cs ps" by blast
    have "res = out @ concat (encodeRune c # ps)" using ps(1) by simp
    moreover have "list_all2 (piece_ok dict) (c # cs) (encodeRune c # ps)"
      using ps(2) True by (simp add: piece_ok_def)
    ultimately show ?thesis by blast
  next
    case False
    with Cons.prems obtain n where
      n: "rnd k = Some n" "0 < length dict"
      and run: "obfuscateLoop rnd dict cs (Suc k) (out @ [dict ! nat (int n mod int (length dict))]) = Returns (res, k')"
      by (auto simp: rand_Int_def split: if_splits option.splits panics.splits)
    let ?x = "dict ! nat (int n mod int (length dict))"
    have "nat (int n mod int (length dict)) < length dict"
      using n(2) by (simp add: nat_less_iff)
    then have mem: "?x \<in> set dict" by simp
    from Cons.IH[OF run] obtain ps where
      ps: "res = (out @ [?x]) @ concat ps" "list_all2 (piece_ok dict) cs ps" by blast
    have "res = out @ concat ([?x] # ps)" using ps(1) by simp
    moreover have "list_all2 (piece_ok dict) (c # cs) ([?x] # ps)"
      using ps(2) False mem by (auto simp: piece_ok_def)
    ultimately show ?thesis by blast
  qed
qed

lemma obfuscateLoop_returns:
  "dict \<noteq> [] \<Longrightarrow> \<forall>j. rnd j \<noteq> None \<Longrightarrow>
     \<exists>res k'. obfuscateLoop rnd dict cs k out = Returns (res, k')"
proof (induction cs arbitrary: k out)
  case Nil
  then show ?case by simp
next
  case (Cons c cs)
  from Cons.prems(2) have "rnd k \<noteq> None" by blast
  then obtain n where "rnd k = Some n" by (cases "rnd k") auto
  with Cons show ?case by (simp add: rand_Int_def)
qed

lemma runes_ascii: "\<forall>b \<in> set s. of_char b < (0x80::nat) \<Longrightarrow> runes s = map of_char s"
  by (induction s) auto

lemma encodeRune_ascii: "of_char b < (0x80::nat) \<Longrightarrow> encodeRune (of_char b) = [b]"
  by (simp add: encodeRune_def)

lemma pieces_ascii:
  "list_all2 (piece_ok dict) (map of_char s) ps \<Longrightarrow> \<forall>b \<in> set s. of_char b < (0x80::nat) \<Longrightarrow>
   list_all2 (byte_ok dict) s (concat ps)"
proof (induction s arbitrary: ps)
  case Nil
  then show ?case by simp
next
  case (Cons b s)
  then obtain p ps' where ps: "ps = p # ps'" "piece_ok dict (of_char b) p"
    "list_all2 (piece_ok dict) (map of_char s) ps'"
    by (auto simp: list_all2_Cons1)
  from Cons.prems(2) have b: "of_char b < (0x80::nat)" by simp
  from ps(2) b obtain x where x: "p = [x]" "byte_ok dict b x"
    by (auto simp: piece_ok_def byte_ok_def encodeRune_ascii split: if_splits)
  from Cons.IH[OF ps(3)] Cons.prems(2)
  have "list_all2 (byte_ok dict) s (concat ps')" by simp
  with x ps(1) show ?case by simp
qed

lemma obfuscateString_pieces:
  assumes "dict \<noteq> []" and "\<forall>j. rnd j \<noteq> None"
  shows "\<exists>out k' ps. obfuscateString rnd k s dict = Returns (out, k') \<and> out = concat ps
           \<and> list_all2 (piece_ok dict) (runes s) ps"
proof -
  from obfuscateLoop_returns[OF assms] obtain out k'
    where r: "obfuscateLoop rnd dict (runes s) k [] = Returns (out, k')" by blast
  from obfuscateLoop_pieces[OF r] show ?thesis
    using r by (auto simp: obfuscateString_def)
qed

text \<open>
  C3, as stated, fails: the single character U+00E9 is two bytes long and is
  replaced by one byte of the alphabet, so the output is shorter than the input.
\<close>

theorem obfuscateString_length_counterexample:
  "obfuscateString zeros 0 [CHR 0xC3, CHR 0xA9] letters = Returns (''a'', 1)
   \<and> length ''a'' \<noteq> length [CHR 0xC3, CHR 0xA9]"
  by (simp add: obfuscateString_def letters_def zeros_def rand_Int_def isSpace_def
      RuneError_def contb_def)

text \<open>
  C3, amended: with a non-empty alphabet and a random source that answers,
  \<open>obfuscateString\<close> returns; its output is one piece for each character (rune) of the
  input, in order: the character's own encoding for a space and one byte of the alphabet
  otherwise. When the input is ASCII the output has the input's length, each space
  stands unchanged at its index and every other byte is in the alphabet.
\<close>

theorem obfuscateString_shape:
  assumes "dict \<noteq> []" and "\<forall>j. rnd j \<noteq> None"
  shows "\<exists>out k' ps. obfuscateString rnd k s dict = Returns (out, k')
           \<and> out = concat ps \<and> list_all2 (piece_ok dict) (runes s) ps
           \<and> ((\<forall>b \<in> set s. of_char b < (0x80::nat)) \<longrightarrow> list_all2 (byte_ok dict) s out)"
proof -
  from obfuscateString_pieces[OF assms] obtain out k' ps where
    r: "obfuscateString rnd k s dict = Returns (out, k')" "out = concat ps"
       "list_all2 (piece_ok dict) (runes s) ps" by blast
  have "list_all2 (byte_ok dict) s out" if a: "\<forall>b \<in> set s. of_char b < (0x80::nat)"
    using pieces_ascii[of dict s ps] r(2,3) a by (simp add: runes_ascii)
  with r show ?thesis by blast
qed

theorem obfuscateString_shape_witness:
  "letters \<noteq> [] \<and> (\<forall>j. counting j \<noteq> None) \<and>
   (\<exists>out k' ps. obfuscateString counting 0 ''x y'' letters = Returns (out, k')
      \<and> out = concat ps \<and> list_all2 (piece_ok letters) (runes ''x y'') ps
      \<and> ((\<forall>b \<in> set ''x y''. of_char b < (0x80::nat)) \<longrightarrow> list_all2 (byte_ok letters) ''x y'' out))"
proof -
  have a: "letters \<noteq> []" by (simp add: letters_def)
  have b: "\<forall>j. counting j \<noteq> None" by (simp add: counting_def)
  from obfuscateString_shape[OF a b, of 0 "''x y''"] a b show ?thesis by blast
qed




section \<open>The file rename stage\<close>

text \<open>
  C10: \<open>anonymiseFiles\<close> always returns, after exactly one statement and no random
  draw. When that statement does not fail, every row of the files table, whatever its
  basename was, has the text of its own identifier as basename, no other column and no
  other table has changed; when it fails the tables are as before (the transaction is
  rolled back).
\<close>

theorem anonymiseFiles_bulk:
  "\<exists>r s'. anonymiseFiles E s = Some (r, s') \<and> stmts s' = Suc (stmts s) \<and> draws s' = draws s \<and>
     (if failing E (stmts s) then r \<noteq> Nil \<and> tables s' = tables s
      else r = Nil
         \<and> tables s' fileTable = map (\<lambda>r. r(''basename'' := castText (r ''id''))) (tables s fileTable)
         \<and> (\<forall>r \<in> set (tables s' fileTable). \<forall>i. r ''id'' = VInt i \<longrightarrow> r ''basename'' = VText (itoa i))
         \<and> (\<forall>t. t \<noteq> fileTable \<longrightarrow> tables s' t = tables s t))"
  by (auto simp add: anonymiseFiles_def WithTxn_def exec_def sqlUpdate_def lift_def drop_locals_def)

theorem anonymiseFiles_bulk_witness:
  "\<not> failing env0 (stmts files_example) \<and>
   (\<exists>s'. anonymiseFiles env0 files_example = Some (Nil, s') \<and> stmts s' = 1 \<and>
      map (\<lambda>r. (r ''id'', r ''basename'')) (tables s' fileTable)
        = [(VInt 5, VText ''5''), (VInt 12, VText ''12'')])"
  using anonymiseFiles_bulk[of env0 files_example]
  by (auto simp add: env0_def never_def files_example_def start_def mkDb_def mkRow_def
      fileTable_def itoa_def)

section \<open>The run: cleanup, the source, and the random source\<close>

lemma NewAnonymiser_handle:
  "NewAnonymiser E src outPath w = ((Some h, r), w') \<Longrightarrow> h = outPath \<and> h \<noteq> src \<and> r = Nil"
  by (auto simp: NewAnonymiser_def Let_def split: option.splits if_splits)

lemma NewAnonymiser_src: "fs (snd (NewAnonymiser E src outPath w)) src = fs w src"
  by (auto simp: NewAnonymiser_def Let_def split: option.splits)

lemma Anonymise_frame:
  "Anonymise E sep fuel path w = Some (r, w') \<Longrightarrow> p \<noteq> path \<Longrightarrow> fs w' p = fs w p"
  by (auto simp: Anonymise_def Let_def Close_def written_def Remove_def
      split: option.splits res.splits if_splits prod.splits)

lemma stages_first_fails:
  "utils_Do (stages env_first_fails ''/'' 1) (start (content ''out'' world_out))
     = Some (Err ''exec'', (start (content ''out'' world_out))\<lparr>stmts := Suc 0\<rparr>)"
  by (simp add: stages_def deleteBlobs_def truncateColumn_def exec_def env_first_fails_def
      first_fails_def start_def)

text \<open>
  C1, as stated, fails at the initial step: when the export has written the working copy
  and opening it fails, \<open>NewAnonymiser\<close> returns the error and the copy stays at the
  destination path.
\<close>

theorem NewAnonymiser_open_failure_counterexample:
  "fst (NewAnonymiser env_open_fails ''src'' ''out'' world_src) = (None, Err ''opening out'')
   \<and> fs (snd (NewAnonymiser env_open_fails ''src'' ''out'' world_src)) ''out'' = Some scenes_example"
  by (simp add: NewAnonymiser_def env_open_fails_def env0_def world_src_def)

text \<open>
  C1, amended: when a stage of \<open>Anonymise\<close> returns an error, \<open>Anonymise\<close> returns
  that error after closing and removing the working copy; when the removal does not
  fail, no file is left at the destination path, and every other file is as before.
\<close>

theorem Anonymise_failure_removes:
  assumes "utils_Do (stages E sep fuel) (start (content path w)) = Some (Err e, s')"
    and "\<not> remove_fails E"
  shows "\<exists>w'. Anonymise E sep fuel path w = Some (Err e, w') \<and> fs w' path = None
           \<and> path \<notin> opened w' \<and> (\<forall>p. p \<noteq> path \<longrightarrow> fs w' p = fs w p)"
  using assms
  by (auto simp: Anonymise_def Let_def Close_def written_def Remove_def split: option.splits)

theorem Anonymise_failure_removes_witness:
  "\<not> remove_fails env_first_fails \<and>
   (\<exists>w'. Anonymise env_first_fails ''/'' 1 ''out'' world_out = Some (Err ''exec'', w')
      \<and> fs w' ''out'' = None \<and> ''out'' \<notin> opened w'
      \<and> (\<forall>p. p \<noteq> ''out'' \<longrightarrow> fs w' p = fs world_out p))"
proof -
  have r: "\<not> remove_fails env_first_fails"
    by (simp add: env_first_fails_def env0_def)
  from Anonymise_failure_removes[OF stages_first_fails r] r show ?thesis by blast
qed

text \<open>
  C2: the export leaves the source file as it is, whether it succeeds or fails, and a run
  of \<open>Anonymise\<close> on the store that \<open>NewAnonymiser\<close> returned leaves the source file
  as it is, whatever its outcome.
\<close>

theorem source_untouched:
  "fs (snd (NewAnonymiser E src outPath w)) src = fs w src \<and>
   (\<forall>h r0 w1 r w2. NewAnonymiser E src outPath w = ((Some h, r0), w1)
       \<longrightarrow> Anonymise E sep fuel h w1 = Some (r, w2) \<longrightarrow> fs w2 src = fs w src)"
proof (intro conjI allI impI)
  show "fs (snd (NewAnonymiser E src outPath w)) src = fs w src"
    by (rule NewAnonymiser_src)
next
  fix h r0 w1 r w2
  assume n: "NewAnonymiser E src outPath w = ((Some h, r0), w1)"
    and a: "Anonymise E sep fuel h w1 = Some (r, w2)"
  from NewAnonymiser_handle[OF n] have "src \<noteq> h" by blast
  with Anonymise_frame[OF a] have "fs w2 src = fs w1 src" by blast
  moreover from NewAnonymiser_src[of E src outPath w] n have "fs w1 src = fs w src" by simp
  ultimately show "fs w2 src = fs w src" by simp
qed

lemma obfuscateLoop_panics:
  "\<forall>j. rnd j = None \<Longrightarrow> dict \<noteq> [] \<Longrightarrow> \<exists>c \<in> set cs. \<not> isSpace c \<Longrightarrow>
   obfuscateLoop rnd dict cs k out = Panics ''error generating random number''"
  by (induction cs arbitrary: out) (auto simp: rand_Int_def)

lemmas run_defs = NewAnonymiser_def Anonymise_def stages_def start_def content_def
  deleteBlobs_def deleteStashIDs_def truncateColumn_def truncateTable_def exec_def sqlUpdate_def
  sqlDelete_def anonymiseFolders_def drop_locals_def lift_def WithTxn_def queryFunc_def
  folderTable_def childOf_def childPath_def itoa_def anonymiseFiles_def fileTable_def
  anonymiseFingerprints_def pageFingerprints_def queryFingerprints_def visitFingerprint_def
  fingerprintTable_def pair_gt_def anonymiseFingerprint_def obfuscateString_def hex_def
  letters_def rand_Int_def isSpace_def RuneError_def contb_def encodeRune_def
  anonymiseScenes_def scanByID_def
  pageByID_def queryByID_def visitByID_def patchRow_def obfuscateNullString_def sceneTable_def
  textIfValid_def anonymiseText_def applyRecord_def anonymiseMarkers_def anonymiseImages_def
  anonymiseGalleries_def anonymisePerformers_def anonymiseStudios_def anonymiseTags_def
  anonymiseMovies_def thenAliases_def anonymiseAliases_def pageAliases_def queryAliases_def
  visitAlias_def optimise_def sceneMarkerTable_def imageTable_def galleryTable_def
  performerTable_def studioTable_def tagTable_def movieTable_def performersAliasesTable_def
  studioAliasesTable_def tagAliasesTable_def Close_def written_def Remove_def

lemmas example_defs = env0_def never_def zeros_def mkDb_def mkRow_def scenes_example_def
  world_src_def world_out_def env_no_random_def no_random_def

lemma NewAnonymiser_example:
  "NewAnonymiser env0 ''src'' ''out'' world_src = ((Some ''out'', Nil), world_out)"
  by (simp add: NewAnonymiser_def example_defs)

lemma Anonymise_example: "map_option fst (Anonymise env0 ''/'' 2 ''out'' world_out) = Some Nil"
  by (simp add: run_defs example_defs numeral_2_eq_2)

theorem source_untouched_witness:
  "\<exists>w2. NewAnonymiser env0 ''src'' ''out'' world_src = ((Some ''out'', Nil), world_out)
     \<and> Anonymise env0 ''/'' 2 ''out'' world_out = Some (Nil, w2)
     \<and> fs w2 ''src'' = fs world_src ''src''"
proof -
  from Anonymise_example obtain w2 where
    a: "Anonymise env0 ''/'' 2 ''out'' world_out = Some (Nil, w2)" by auto
  from source_untouched[of env0 "''src''" "''out''" world_src "''/''" 2] NewAnonymiser_example a
  have "fs w2 ''src'' = fs world_src ''src''" by blast
  with NewAnonymiser_example a show ?thesis by blast
qed

lemma stages_no_random:
  "map_option fst (utils_Do (stages env_no_random ''/'' 2) (start (content ''out'' world_out)))
     = Some (Panic ''error generating random number'')"
  by (simp add: run_defs example_defs numeral_2_eq_2)

text \<open>
  C8, as stated, fails: with a random source that does not answer, the run on a store
  with one titled scene does not return an error but panics, and the working copy is
  still at the destination path afterwards.
\<close>

theorem random_failure_counterexample:
  "map_option fst (Anonymise env_no_random ''/'' 2 ''out'' world_out)
     = Some (Panic ''error generating random number'')
   \<and> map_option (\<lambda>x. fs (snd x) ''out'' = None) (Anonymise env_no_random ''/'' 2 ''out'' world_out)
     = Some False"
  by (simp add: run_defs example_defs numeral_2_eq_2)

text \<open>
  C8, amended: when the random source does not answer, \<open>obfuscateString\<close> panics on
  the first character that is not a space; a panic of a stage is not retried and passes
  through \<open>Anonymise\<close>, which closes the working copy, returns no error and does not
  delete the copy.
\<close>

theorem random_failure_panics:
  "((\<forall>j. rnd j = None) \<and> dict \<noteq> [] \<and> (\<exists>c \<in> set (runes s). \<not> isSpace c)
      \<longrightarrow> obfuscateString rnd k s dict = Panics ''error generating random number'')
   \<and> (map_option fst (utils_Do (stages E sep fuel) (start (content path w))) = Some (Panic m)
      \<longrightarrow> (\<exists>w'. Anonymise E sep fuel path w = Some (Panic m, w')
             \<and> (fs w path \<noteq> None \<longrightarrow> fs w' path \<noteq> None) \<and> path \<notin> opened w'
             \<and> (\<forall>p. p \<noteq> path \<longrightarrow> fs w' p = fs w p)))"
proof (intro conjI impI)
  assume "(\<forall>j. rnd j = None) \<and> dict \<noteq> [] \<and> (\<exists>c \<in> set (runes s). \<not> isSpace c)"
  then show "obfuscateString rnd k s dict = Panics ''error generating random number''"
    by (simp add: obfuscateString_def obfuscateLoop_panics)
next
  assume "map_option fst (utils_Do (stages E sep fuel) (start (content path w))) = Some (Panic m)"
  then obtain s' where
    "utils_Do (stages E sep fuel) (start (content path w)) = Some (Panic m, s')" by auto
  then show "\<exists>w'. Anonymise E sep fuel path w = Some (Panic m, w')
      \<and> (fs w path \<noteq> None \<longrightarrow> fs w' path \<noteq> None) \<and> path \<notin> opened w'
      \<and> (\<forall>p. p \<noteq> path \<longrightarrow> fs w' p = fs w p)"
    by (auto simp: Anonymise_def Let_def Close_def written_def split: option.splits)
qed

theorem random_failure_panics_witness:
  "(\<forall>j. no_random j = None) \<and> letters \<noteq> [] \<and> (\<exists>c \<in> set (runes ''My t''). \<not> isSpace c)
   \<and> obfuscateString no_random 0 ''My t'' letters = Panics ''error generating random number''
   \<and> fs world_out ''out'' \<noteq> None
   \<and> (\<exists>w'. Anonymise env_no_random ''/'' 2 ''out'' world_out
              = Some (Panic ''error generating random number'', w')
          \<and> fs w' ''out'' \<noteq> None \<and> ''out'' \<notin> opened w')"
proof -
  have h: "(\<forall>j. no_random j = None) \<and> letters \<noteq> [] \<and> (\<exists>c \<in> set (runes ''My t''). \<not> isSpace c)"
    by (simp add: no_random_def letters_def isSpace_def)
  have f: "fs world_out ''out'' \<noteq> None" by (simp add: world_out_def)
  from random_failure_panics[of no_random letters "''My t''" 0 env_no_random "''/''" 2
      "''out''" world_out "''error generating random number''"] h f stages_no_random
  show ?thesis by blast
qed

section \<open>Values shared between rows\<close>


lemma col_fun_map:
  assumes "col_fun c T0 T" and h: "\<And>r. (h r) c = g' (r c)"
  shows "col_fun c T0 (map h T)"
proof -
  from assms(1) obtain g where g: "map (\<lambda>r. r c) T = map (\<lambda>r. g (r c)) T0"
    unfolding col_fun_def by blast
  have "map (\<lambda>r. r c) (map h T) = map g' (map (\<lambda>r. r c) T)" by (simp add: h)
  also have "\<dots> = map (\<lambda>r. (g' \<circ> g) (r c)) T0" by (simp add: g)
  finally show ?thesis unfolding col_fun_def by blast
qed


lemma eachRow_inv:
  assumes step: "\<And>r v s x s'. J (tables s) \<Longrightarrow> f r v s = Some (x, s') \<Longrightarrow> J (tables s')"
  shows "J (tables s) \<Longrightarrow> eachRow f rows v s = Some (x, s') \<Longrightarrow> J (tables s')"
proof (induction rows arbitrary: v s)
  case Nil
  then show ?case by simp
next
  case (Cons r rows)
  from Cons.prems(2) obtain y s1 where f: "f r v s = Some (y, s1)"
    by (cases "f r v s") auto
  from step[OF Cons.prems(1) f] have J1: "J (tables s1)" .
  show ?case
  proof (cases "fst y = Nil")
    case True
    with Cons.prems(2) f have "eachRow f rows (snd y) s1 = Some (x, s')"
      by (cases y) auto
    from Cons.IH[OF J1 this] show ?thesis .
  next
    case False
    with Cons.prems(2) f have "s' = s1" by (cases y; cases "fst y") auto
    with J1 show ?thesis by simp
  qed
qed

lemma queryFunc_inv:
  assumes step: "\<And>r v s x s'. J (tables s) \<Longrightarrow> f r v s = Some (x, s') \<Longrightarrow> J (tables s')"
    and "J (tables s)" and "queryFunc E q f v s = Some (x, s')"
  shows "J (tables s')"
proof (cases "failing E (stmts s)")
  case True
  with assms(2,3) show ?thesis by (auto simp: queryFunc_def)
next
  case False
  with assms(3) have "eachRow f (q (tables s)) v (s\<lparr>stmts := Suc (stmts s)\<rparr>) = Some (x, s')"
    by (simp add: queryFunc_def)
  from eachRow_inv[of J f, OF step _ this] assms(2) show ?thesis by simp
qed

lemma WithTxn_inv:
  assumes "\<And>x s'. body s = Some (x, s') \<Longrightarrow> J (tables s')"
    and "J (tables s)" and "WithTxn body s = Some (x, s')"
  shows "J (tables s')"
  using assms by (auto simp: WithTxn_def split: option.splits prod.splits res.splits)

lemma forGotSome_inv:
  assumes page: "\<And>v s x s'. J (tables s) \<Longrightarrow> page v s = Some (x, s') \<Longrightarrow> J (tables s')"
  shows "J (tables s) \<Longrightarrow> forGotSome fuel page v s = Some (r, s') \<Longrightarrow> J (tables s')"
proof (induction fuel arbitrary: v s)
  case 0
  then show ?case by (cases v; cases "snd v") auto
next
  case (Suc fuel)
  obtain k b where v: "v = (k, b)" by (cases v)
  show ?case
  proof (cases b)
    case False
    with Suc.prems v show ?thesis by simp
  next
    case True
    with Suc.prems(2) v obtain y s1 where p: "page (k, True) s = Some (y, s1)"
      by (cases "page (k, True) s") auto
    from page[OF Suc.prems(1) p] have J1: "J (tables s1)" .
    show ?thesis
    proof (cases "fst y = Nil")
      case True
      then obtain v' where y: "y = (Nil, v')" by (cases y) auto
      with Suc.prems(2) p v \<open>b\<close> have "forGotSome fuel page v' s1 = Some (r, s')" by simp
      from Suc.IH[OF J1 this] show ?thesis .
    next
      case False
      with Suc.prems(2) p v \<open>b\<close> have "s' = s1" by (cases y; cases "fst y") auto
      with J1 show ?thesis by simp
    qed
  qed
qed


lemma exec_inv:
  assumes "J (tables s)" and "\<And>db. J db \<Longrightarrow> J (stmt db)" and "exec E stmt s = (r, s')"
  shows "J (tables s')"
  using assms by (auto simp: exec_def split: if_splits)

lemma snd_wrapErr: "snd (wrapErr what x) = snd x"
  by (cases "(what, x)" rule: wrapErr.cases) auto

lemma sqlUpdate_col_fun:
  assumes "col_fun c T0 (db t)" and "\<And>r. (if p r then f r else r) c = g (r c)"
  shows "col_fun c T0 (sqlUpdate t f p db t)"
  using col_fun_map[OF assms(1), of "\<lambda>r. if p r then f r else r" g] assms(2)
  by (simp add: sqlUpdate_def)



lemma anonymiseFingerprint_col_fun:
  assumes "col_fun c T0 (tables s t)" and "anonymiseFingerprint E t column v s = (r, s')"
  shows "col_fun c T0 (tables s' t)"
proof (cases "obfuscateString (rand_Reader E) (draws s) v hex")
  case (Panics m)
  with assms show ?thesis by (simp add: anonymiseFingerprint_def)
next
  case (Returns x)
  obtain new k where x: "x = (new, k)" by (cases x)
  let ?stmt = "sqlUpdate t (\<lambda>r. r(column := VText new)) (\<lambda>r. val_eq (r column) (VText v))"
  from assms(2) Returns x have "wrapErr column (exec E ?stmt (s\<lparr>draws := k\<rparr>)) = (r, s')"
    by (simp add: anonymiseFingerprint_def)
  then have "snd (exec E ?stmt (s\<lparr>draws := k\<rparr>)) = s'"
    using snd_wrapErr[of column "exec E ?stmt (s\<lparr>draws := k\<rparr>)"] by simp
  then obtain r0 where e: "exec E ?stmt (s\<lparr>draws := k\<rparr>) = (r0, s')"
    by (cases "exec E ?stmt (s\<lparr>draws := k\<rparr>)") auto
  have "col_fun c T0 (?stmt db t)" if "col_fun c T0 (db t)" for db
    by (rule sqlUpdate_col_fun[where db = db and t = t
          and g = "\<lambda>u. if c = column \<and> val_eq u (VText v) then VText new else u", OF that]) auto
  from exec_inv[of "\<lambda>db. col_fun c T0 (db t)", OF _ this e] assms(1) show ?thesis by simp
qed

lemma obfuscateColumns_tables:
  "obfuscateColumns E rw cols out s = (x, s') \<Longrightarrow> tables s' = tables s"
proof (induction cols arbitrary: out s)
  case Nil
  then show ?case by auto
next
  case (Cons c cols)
  obtain y s1 where o: "obfuscateNullString E out c (scanNullString (rw c)) s = (y, s1)"
    by (cases "obfuscateNullString E out c (scanNullString (rw c)) s")
  then have t: "tables s1 = tables s"
    by (auto simp: obfuscateNullString_def split: option.splits panics.splits prod.splits)
  show ?case
  proof (cases y)
    case (Panics m)
    with Cons.prems o t show ?thesis by simp
  next
    case (Returns out1)
    with Cons.prems o have "obfuscateColumns E rw cols out1 s1 = (x, s')" by simp
    from Cons.IH[OF this] t show ?thesis by simp
  qed
qed


lemma scanByID_inv:
  assumes visit: "\<And>i rw s r s'. J (tables s) \<Longrightarrow> visit i rw s = (r, s') \<Longrightarrow> J (tables s')"
    and "J (tables s)" and "scanByID E fuel t visit s = Some (r, s')"
  shows "J (tables s')"
proof -
  have v: "J (tables s')" if "J (tables s)" "visitByID visit rw v s = Some (x, s')" for rw v s x s'
    using that visit[of s _ rw]
    by (auto simp: visitByID_def split: option.splits prod.splits res.splits)
  have p: "J (tables s')" if j: "J (tables s)" and pg: "pageByID E t visit v s = Some (x, s')" for v s x s'
  proof -
    have "J (tables s'')" if "queryFunc E (queryByID t (fst v)) (visitByID visit) (fst v, False) s = Some (y, s'')"
      for y s''
      using queryFunc_inv[of J "visitByID visit", OF v j that] .
    from WithTxn_inv[of _ s J, OF this j pg[unfolded pageByID_def]] show ?thesis .
  qed
  from forGotSome_inv[of J "pageByID E t visit", OF p assms(2) assms(3)[unfolded scanByID_def]]
  show ?thesis .
qed











section \<open>The cursor of the paged scans\<close>

lemma isInt_iff: "isInt v \<longleftrightarrow> (\<exists>i. v = VInt i)"
  by (cases v) auto


lemma scanInt_Some [simp]: "scanInt v = Some i \<longleftrightarrow> v = VInt i"
  by (cases v) auto







































section \<open>The aliases\<close>

lemma obfuscateString_obfText:
  assumes "obfuscateString rnd k a letters = Returns (new, k')"
  shows "obfText new"
proof -
  from assms obfuscateLoop_pieces[of rnd letters "runes a" k "[]" new k']
  obtain ps where ps: "new = concat ps" "list_all2 (piece_ok letters) (runes a) ps"
    by (auto simp: obfuscateString_def)
  have "(\<exists>c. isSpace c \<and> p = encodeRune c) \<or> (\<exists>x \<in> set letters. p = [x])" if "p \<in> set ps" for p
  proof -
    from that obtain n where n: "n < length ps" "ps ! n = p" by (auto simp: in_set_conv_nth)
    with ps(2) have "piece_ok letters (runes a ! n) p"
      by (auto simp: list_all2_conv_all_nth)
    then show ?thesis by (auto simp: piece_ok_def split: if_splits)
  qed
  with ps(1) show ?thesis unfolding obfText_def by blast
qed

lemma aliasInv_mono: "aliasInv T0 D' T \<Longrightarrow> D \<subseteq> D' \<Longrightarrow> aliasInv T0 D T"
  by (auto simp: aliasInv_def)

lemma alias_update_inv:
  assumes inv: "aliasInv T0 D T" and new: "obfText new"
  shows "aliasInv T0 (D \<union> {j. j < length T0 \<and> (T0 ! j) c = VInt i \<and> (T0 ! j) ''alias'' = VText a})
     (map (\<lambda>r. if val_eq (r c) (VInt i) \<and> val_eq (r ''alias'') (VText a)
                then applyRecord [(''alias'', new)] r else r) T)"
proof -
  let ?u = "\<lambda>r. if val_eq (r c) (VInt i) \<and> val_eq (r ''alias'') (VText a)
                then applyRecord [(''alias'', new)] r else r"
  have obf: "aliasObf (applyRecord [(''alias'', new)] r)" for r
    using new by (simp add: aliasObf_def applyRecord_def)
  have keep: "aliasObf r \<Longrightarrow> aliasObf (?u r)" for r
    using obf by simp
  from inv have len: "length T = length T0" by (simp add: aliasInv_def)
  have "(?u (T ! j) = T0 ! j \<or> aliasObf (?u (T ! j)))
      \<and> (j \<in> D \<union> {j. j < length T0 \<and> (T0 ! j) c = VInt i \<and> (T0 ! j) ''alias'' = VText a}
            \<longrightarrow> aliasObf (?u (T ! j)))" if j: "j < length T0" for j
  proof -
    from inv j have a: "T ! j = T0 ! j \<or> aliasObf (T ! j)" and d: "j \<in> D \<longrightarrow> aliasObf (T ! j)"
      by (auto simp: aliasInv_def)
    have 1: "?u (T ! j) = T0 ! j \<or> aliasObf (?u (T ! j))"
      using a keep[of "T ! j"] obf[of "T ! j"] by (cases "aliasObf (T ! j)") auto
    have 2: "aliasObf (?u (T ! j))" if "j \<in> D" using d that keep by blast
    have 3: "aliasObf (?u (T ! j))" if m: "(T0 ! j) c = VInt i" "(T0 ! j) ''alias'' = VText a"
    proof (cases "aliasObf (T ! j)")
      case True
      with keep show ?thesis by blast
    next
      case False
      with a have "T ! j = T0 ! j" by simp
      with m obf show ?thesis by simp
    qed
    from 1 2 3 show ?thesis by blast
  qed
  with len show ?thesis by (simp add: aliasInv_def)
qed

lemma visitAlias_inv:
  assumes inv: "aliasInv T0 D (tables s t)" and v: "visitAlias E t c q v0 s = Some ((e, v1), s')"
  shows "aliasInv T0 D (tables s' t)
     \<and> (e = Nil \<and> isInt (q c) \<and> isText (q ''alias'') \<longrightarrow>
          aliasInv T0 (D \<union> {j. j < length T0 \<and> (T0 ! j) c = q c \<and> (T0 ! j) ''alias'' = q ''alias''}) (tables s' t))"
proof (cases "scanInt (q c)")
  case None
  with v inv show ?thesis by (auto simp: visitAlias_def isInt_iff)
next
  case (Some i)
  then have qi: "q c = VInt i" by simp
  show ?thesis
  proof (cases "scanNullString (q ''alias'')")
    case None
    with v qi have "s' = s" by (simp add: visitAlias_def obfuscateNullString_def)
    moreover from None have "\<not> isText (q ''alias'')" by (cases "q ''alias''") auto
    ultimately show ?thesis using inv by simp
  next
    case (Some a)
    note a = this
    show ?thesis
    proof (cases "obfuscateString (rand_Reader E) (draws s) a letters")
      case (Panics m)
      with v qi a have "s' = s \<and> e \<noteq> Nil" by (auto simp: visitAlias_def obfuscateNullString_def)
      with inv show ?thesis by simp
    next
      case (Returns x)
      obtain new k where x: "x = (new, k)" by (cases x)
      from obfuscateString_obfText[OF Returns[unfolded x]] have new: "obfText new" .
      let ?p = "\<lambda>r. val_eq (r c) (VInt i) \<and> val_eq (r ''alias'') (VText a)"
      let ?s1 = "s\<lparr>draws := k\<rparr>"
      show ?thesis
      proof (cases "failing E (stmts s)")
        case True
        with v qi a Returns x have "tables s' = tables s \<and> e \<noteq> Nil"
          by (auto simp: visitAlias_def obfuscateNullString_def exec_def)
        with inv show ?thesis by simp
      next
        case False
        with v qi a Returns x have t: "tables s' = sqlUpdate t (applyRecord [(''alias'', new)]) ?p (tables s)"
          by (auto simp: visitAlias_def obfuscateNullString_def exec_def)
        then have t': "tables s' t = map (\<lambda>r. if ?p r then applyRecord [(''alias'', new)] r else r) (tables s t)"
          by (simp add: sqlUpdate_def)
        note u = alias_update_inv[OF inv new, of c i a, folded t']
        have "aliasInv T0 D (tables s' t)"
          by (rule aliasInv_mono[OF u]) auto
        moreover have "aliasInv T0 (D \<union> {j. j < length T0 \<and> (T0 ! j) c = q c \<and> (T0 ! j) ''alias'' = q ''alias''}) (tables s' t)"
          if "isText (q ''alias'')"
        proof -
          from that a have "q ''alias'' = VText a" by (cases "q ''alias''") auto
          with u qi show ?thesis by simp
        qed
        ultimately show ?thesis by blast
      qed
    qed
  qed
qed

lemma visitedBy_Cons:
  "visitedBy c T0 (q # rows) = visitedBy c T0 rows \<union>
     (if isInt (q c) \<and> isText (q ''alias'')
      then {j. j < length T0 \<and> (T0 ! j) c = q c \<and> (T0 ! j) ''alias'' = q ''alias''} else {})"
  by (auto simp: visitedBy_def)

lemma eachRow_visitAlias_inv:
  assumes "aliasInv T0 D (tables s t)"
    and "eachRow (visitAlias E t c) rows v s = Some ((Nil, v'), s')"
  shows "aliasInv T0 (D \<union> visitedBy c T0 rows) (tables s' t)"
  using assms
proof (induction rows arbitrary: D v s)
  case Nil
  then show ?case by (simp add: visitedBy_def)
next
  case (Cons q rows)
  from Cons.prems(2) obtain y s1 where f0: "visitAlias E t c q v s = Some (y, s1)"
    by (cases "visitAlias E t c q v s") auto
  obtain e1 v1 where y: "y = (e1, v1)" by (cases y)
  from Cons.prems(2) f0 y have e1: "e1 = Nil" by (cases e1) auto
  with f0 y have f: "visitAlias E t c q v s = Some ((Nil, v1), s1)" by simp
  from Cons.prems(2) f have e: "eachRow (visitAlias E t c) rows v1 s1 = Some ((Nil, v'), s')"
    by simp
  let ?Q = "if isInt (q c) \<and> isText (q ''alias'')
      then {j. j < length T0 \<and> (T0 ! j) c = q c \<and> (T0 ! j) ''alias'' = q ''alias''} else {}"
  from visitAlias_inv[OF Cons.prems(1) f] have "aliasInv T0 (D \<union> ?Q) (tables s1 t)"
    by (cases "isInt (q c) \<and> isText (q ''alias'')") auto
  from Cons.IH[OF this e] have "aliasInv T0 ((D \<union> ?Q) \<union> visitedBy c T0 rows) (tables s' t)" .
  moreover have "(D \<union> ?Q) \<union> visitedBy c T0 rows = D \<union> visitedBy c T0 (q # rows)"
    by (simp only: visitedBy_Cons) blast
  ultimately show ?case by simp
qed

lemma pageAliases_inv:
  assumes inv: "aliasInv T0 D (tables s t)" and p: "pageAliases E t c v s = Some (x, s')"
  shows "aliasInv T0 D (tables s' t)"
proof -
  let ?J = "\<lambda>db. aliasInv T0 D (db t)"
  have vis: "?J (tables s2)" if "?J (tables s1)" "visitAlias E t c r v1 s1 = Some (y, s2)"
    for r v1 s1 y s2
    using visitAlias_inv[OF that(1), of E c r v1 "fst y" "snd y" s2] that(2) by simp
  have "?J (tables s'')"
    if "queryFunc E (queryAliases t c (fst v)) (visitAlias E t c) (fst v, False) s = Some (y, s'')"
    for y s''
    using queryFunc_inv[of ?J "visitAlias E t c", OF vis inv that] .
  from WithTxn_inv[of _ s ?J, OF this inv p[unfolded pageAliases_def]] show ?thesis .
qed

lemma pageAliases_first:
  assumes inv: "aliasInv T0 D (tables s t)"
    and p: "pageAliases E t c (k, True) s = Some ((Nil, v'), s')"
  shows "aliasInv T0 (D \<union> visitedBy c T0 (queryAliases t c k (tables s))) (tables s' t)"
proof -
  let ?rows = "queryAliases t c k (tables s)"
  let ?s0 = "s\<lparr>stmts := Suc (stmts s)\<rparr>"
  from p have q: "queryFunc E (queryAliases t c k) (visitAlias E t c) (k, False) s = Some ((Nil, v'), s')"
    by (auto simp: pageAliases_def WithTxn_def split: option.splits prod.splits res.splits)
  then have nf: "\<not> failing E (stmts s)"
    by (auto simp: queryFunc_def split: if_splits)
  with q have e: "eachRow (visitAlias E t c) ?rows (k, False) ?s0 = Some ((Nil, v'), s')"
    by (simp add: queryFunc_def)
  from inv have "aliasInv T0 D (tables ?s0 t)" by simp
  from eachRow_visitAlias_inv[OF this e] show ?thesis .
qed

lemma aliasInv_start: "aliasInv T {} T"
  by (simp add: aliasInv_def)

lemma anonymiseAliases_obfuscates:
  assumes run: "anonymiseAliases E fuel t c s = Some (Nil, s')"
    and few: "length (filter (selAlias c (0, [])) (tables s t)) \<le> 1000"
  shows "length (tables s' t) = length (tables s t)
     \<and> (\<forall>j < length (tables s t).
          selAlias c (0, []) (tables s t ! j) \<and> isInt ((tables s t ! j) c)
          \<and> isText ((tables s t ! j) ''alias'') \<longrightarrow> aliasObf (tables s' t ! j))"
proof -
  let ?T0 = "tables s t"
  let ?rows = "queryAliases t c (0, []) (tables s)"
  let ?D = "visitedBy c ?T0 ?rows"
  from run obtain n where fuel: "fuel = Suc n"
    by (cases fuel) (auto simp: anonymiseAliases_def)
  from run fuel obtain y s1 where p0: "pageAliases E t c ((0, []), True) s = Some (y, s1)"
    by (cases "pageAliases E t c ((0, []), True) s") (auto simp: anonymiseAliases_def)
  obtain e v1 where y: "y = (e, v1)" by (cases y)
  from run fuel p0 y have e: "e = Nil"
    by (cases e) (auto simp: anonymiseAliases_def)
  with p0 y have p: "pageAliases E t c ((0, []), True) s = Some ((Nil, v1), s1)" by simp
  from run fuel p have rest: "forGotSome n (pageAliases E t c) v1 s1 = Some (Nil, s')"
    by (simp add: anonymiseAliases_def)
  from pageAliases_first[OF aliasInv_start p] have i1: "aliasInv ?T0 ?D (tables s1 t)" by simp
  have "aliasInv ?T0 ?D (tables s' t)"
    by (rule forGotSome_inv[of "\<lambda>db. aliasInv ?T0 ?D (db t)" "pageAliases E t c", OF _ i1 rest])
      (rule pageAliases_inv)
  then have final: "length (tables s' t) = length ?T0"
    "\<And>j. j < length ?T0 \<Longrightarrow> j \<in> ?D \<Longrightarrow> aliasObf (tables s' t ! j)"
    by (auto simp: aliasInv_def)
  have rows: "?rows = filter (selAlias c (0, [])) ?T0"
  proof -
    have "(\<lambda>r. pair_gt (r c) (r ''alias'') (VInt (fst (0::int, []))) (VText (snd (0::int, []))))
        = selAlias c (0, [])"
      by (simp add: selAlias_def fun_eq_iff)
    with few show ?thesis by (simp add: queryAliases_def)
  qed
  have "j \<in> ?D" if "j < length ?T0" "selAlias c (0, []) (?T0 ! j)" "isInt ((?T0 ! j) c)"
    "isText ((?T0 ! j) ''alias'')" for j
  proof -
    from that(1,2) have "?T0 ! j \<in> set ?rows" by (simp add: rows)
    with that show ?thesis unfolding visitedBy_def by blast
  qed
  with final show ?thesis by blast
qed

lemma patchRow_frame:
  assumes "patchRow E t cols i rw s = (r, s')" and "t' \<noteq> t"
  shows "tables s' t' = tables s t'"
proof -
  obtain x s1 where o: "obfuscateColumns E rw cols [] s = (x, s1)"
    by (cases "obfuscateColumns E rw cols [] s")
  from obfuscateColumns_tables[OF o] have t1: "tables s1 = tables s" .
  show ?thesis
  proof (cases x)
    case (Panics m)
    with assms o t1 show ?thesis by (simp add: patchRow_def)
  next
    case (Returns rec)
    show ?thesis
    proof (cases "rec = []")
      case True
      with assms o t1 Returns show ?thesis by (simp add: patchRow_def)
    next
      case False
      let ?stmt = "sqlUpdate t (applyRecord rec) (\<lambda>r. val_eq (r ''id'') (VInt i))"
      from assms(1) o Returns False have "wrapErr t (exec E ?stmt s1) = (r, s')"
        by (simp add: patchRow_def)
      then have "snd (exec E ?stmt s1) = s'"
        using snd_wrapErr[of t "exec E ?stmt s1"] by simp
      then have "tables s' t' = tables s1 t'"
        using assms(2) by (auto simp: exec_def sqlUpdate_def split: if_splits)
      with t1 show ?thesis by simp
    qed
  qed
qed

lemma entity_then_aliases:
  assumes run: "thenAliases (scanByID E fuel et (patchRow E et cols) s) (anonymiseAliases E fuel t c)
      = Some (Nil, s')"
    and ne: "t \<noteq> et"
    and few: "length (filter (selAlias c (0, [])) (tables s t)) \<le> 1000"
  shows "length (tables s' t) = length (tables s t)
     \<and> (\<forall>j < length (tables s t).
          selAlias c (0, []) (tables s t ! j) \<and> isInt ((tables s t ! j) c)
          \<and> isText ((tables s t ! j) ''alias'') \<longrightarrow> aliasObf (tables s' t ! j))"
proof -
  from run obtain y where sc: "scanByID E fuel et (patchRow E et cols) s = Some y"
    by (cases "scanByID E fuel et (patchRow E et cols) s") (auto simp: thenAliases_def)
  obtain e s1 where y: "y = (e, s1)" by (cases y)
  from run sc y have e: "e = Nil" by (cases e) (auto simp: thenAliases_def)
  with run sc y have al: "anonymiseAliases E fuel t c s1 = Some (Nil, s')"
    by (simp add: thenAliases_def)
  have "tables s1 t = tables s t"
  proof (rule scanByID_inv[of "\<lambda>db. db t = tables s t" "patchRow E et cols", OF _ refl sc[unfolded y]])
    fix i rw s2 r s3
    assume "tables s2 t = tables s t" "patchRow E et cols i rw s2 = (r, s3)"
    with patchRow_frame[of E et cols i rw s2 r s3 t] ne show "tables s3 t = tables s t" by simp
  qed
  with anonymiseAliases_obfuscates[OF al] few show ?thesis by simp
qed

text \<open>
  C9, amended: alias anonymisation is implemented for the three entity types alike. When
  the stage of performers, studios or tags returns \<open>nil\<close>, its alias table has as many
  rows as before, and every alias row that the scan selects (its owner and alias are
  above the initial cursor), with an integer owner and a text alias, has an alias made
  of spaces and letters of the alphabet only; this for an alias table whose selected
  rows fit in one page.
\<close>

theorem aliases_obfuscated:
  assumes "(stage = anonymisePerformers \<and> t = performersAliasesTable \<and> c = ''performer_id'')
      \<or> (stage = anonymiseStudios \<and> t = studioAliasesTable \<and> c = ''studio_id'')
      \<or> (stage = anonymiseTags \<and> t = tagAliasesTable \<and> c = ''tag_id'')"
    and "stage E fuel s = Some (Nil, s')"
    and "length (filter (selAlias c (0, [])) (tables s t)) \<le> 1000"
  shows "length (tables s' t) = length (tables s t)
     \<and> (\<forall>j < length (tables s t).
          selAlias c (0, []) (tables s t ! j) \<and> isInt ((tables s t ! j) c)
          \<and> isText ((tables s t ! j) ''alias'') \<longrightarrow> aliasObf (tables s' t ! j))"
proof -
  have ne: "performersAliasesTable \<noteq> performerTable" "studioAliasesTable \<noteq> studioTable"
    "tagAliasesTable \<noteq> tagTable"
    by (simp_all add: performersAliasesTable_def performerTable_def studioAliasesTable_def
        studioTable_def tagAliasesTable_def tagTable_def)
  from assms(1) consider
    (p) "stage = anonymisePerformers" "t = performersAliasesTable" "c = ''performer_id''"
    | (s) "stage = anonymiseStudios" "t = studioAliasesTable" "c = ''studio_id''"
    | (t) "stage = anonymiseTags" "t = tagAliasesTable" "c = ''tag_id''"
    by blast
  then show ?thesis
  proof cases
    case p
    with assms(2,3) entity_then_aliases[of E fuel performerTable _ s t c s'] ne(1)
    show ?thesis by (simp add: anonymisePerformers_def)
  next
    case s
    with assms(2,3) entity_then_aliases[of E fuel studioTable _ s t c s'] ne(2)
    show ?thesis by (simp add: anonymiseStudios_def)
  next
    case t
    with assms(2,3) entity_then_aliases[of E fuel tagTable _ s t c s'] ne(3)
    show ?thesis by (simp add: anonymiseTags_def)
  qed
qed

text \<open>
  C9, as stated, fails: on a store with one alias for a performer, a studio and a tag, the
  run completes and has obfuscated all three aliases.
\<close>

theorem aliases_all_obfuscated_counterexample:
  "map_option (\<lambda>x. (fst x,
       map (\<lambda>r. r ''alias'') (content ''out'' (snd x) performersAliasesTable),
       map (\<lambda>r. r ''alias'') (content ''out'' (snd x) studioAliasesTable),
       map (\<lambda>r. r ''alias'') (content ''out'' (snd x) tagAliasesTable)))
     (Anonymise env0 ''/'' 2 ''out'' world_aliases)
   = Some (Nil, [VText ''aaa''], [VText ''aaa''], [VText ''aaa''])"
  by (simp add: run_defs example_defs aliases_example_def world_aliases_def numeral_2_eq_2)

lemma anonymiseStudios_example:
  "map_option fst (anonymiseStudios env0 2 (start aliases_example)) = Some Nil"
  by (simp add: run_defs example_defs aliases_example_def numeral_2_eq_2)

lemma aliases_example_few:
  "length (filter (selAlias ''studio_id'' (0, [])) (tables (start aliases_example) studioAliasesTable)) \<le> 1000
   \<and> length (tables (start aliases_example) studioAliasesTable) = 1
   \<and> selAlias ''studio_id'' (0, []) (tables (start aliases_example) studioAliasesTable ! 0)
   \<and> isInt ((tables (start aliases_example) studioAliasesTable ! 0) ''studio_id'')
   \<and> isText ((tables (start aliases_example) studioAliasesTable ! 0) ''alias'')"
  by (simp add: selAlias_def pair_gt_def start_def aliases_example_def mkDb_def mkRow_def
      studioAliasesTable_def)

theorem aliases_obfuscated_witness:
  "\<exists>s'. anonymiseStudios env0 2 (start aliases_example) = Some (Nil, s')
     \<and> length (filter (selAlias ''studio_id'' (0, []))
          (tables (start aliases_example) studioAliasesTable)) \<le> 1000
     \<and> selAlias ''studio_id'' (0, []) (tables (start aliases_example) studioAliasesTable ! 0)
     \<and> isInt ((tables (start aliases_example) studioAliasesTable ! 0) ''studio_id'')
     \<and> isText ((tables (start aliases_example) studioAliasesTable ! 0) ''alias'')
     \<and> length (tables s' studioAliasesTable) = 1
     \<and> aliasObf (tables s' studioAliasesTable ! 0)"
proof -
  from anonymiseStudios_example obtain s' where
    a: "anonymiseStudios env0 2 (start aliases_example) = Some (Nil, s')" by auto
  note f = aliases_example_few
  have d: "(anonymiseStudios = anonymisePerformers \<and> studioAliasesTable = performersAliasesTable
        \<and> ''studio_id'' = ''performer_id'')
      \<or> (anonymiseStudios = anonymiseStudios \<and> studioAliasesTable = studioAliasesTable
        \<and> ''studio_id'' = ''studio_id'')
      \<or> (anonymiseStudios = anonymiseTags \<and> studioAliasesTable = tagAliasesTable
        \<and> ''studio_id'' = ''tag_id'')" by simp
  from aliases_obfuscated[OF d a] f
  have "length (tables s' studioAliasesTable) = 1 \<and> aliasObf (tables s' studioAliasesTable ! 0)"
    by simp
  with a f show ?thesis by blast
qed

section \<open>The folder tree\<close>

lemma wf_id:
  assumes "foldersWf T" "r \<in> set T"
  shows "r ''id'' = VInt (fid r) \<and> fid r \<noteq> 0"
proof -
  from assms have "isInt (r ''id'')" "fid r \<noteq> 0" unfolding foldersWf_def by blast+
  then show ?thesis by (auto simp: isInt_iff fid_def)
qed

lemma wf_inj:
  assumes "foldersWf T" "r \<in> set T" "q \<in> set T" "fid r = fid q"
  shows "r = q"
proof -
  from assms(1) have "inj_on fid (set T)" by (simp add: foldersWf_def distinct_map)
  from inj_onD[OF this assms(4) assms(2) assms(3)] show ?thesis .
qed

lemma single_valued_parentRel:
  assumes "foldersWf T"
  shows "single_valued (parentRel T)"
proof (rule single_valuedI)
  fix x y z
  assume a: "(x, y) \<in> parentRel T" and b: "(x, z) \<in> parentRel T"
  from a obtain r where r: "r \<in> set T" "fid r = x" "r ''parent_folder_id'' = VInt y"
    by (auto simp: parentRel_def)
  from b obtain q where q: "q \<in> set T" "fid q = x" "q ''parent_folder_id'' = VInt z"
    by (auto simp: parentRel_def)
  from wf_inj[OF assms r(1) q(1)] r(2) q(2) have "r = q" by simp
  with r(3) q(3) show "y = z" by simp
qed

lemma relab_self:
  assumes "foldersWf T"
  shows "\<exists>\<pi>. T = relab T \<pi>"
proof -
  let ?\<pi> = "\<lambda>i. (THE r. r \<in> set T \<and> fid r = i) ''path''"
  have "r(''path'' := ?\<pi> (fid r)) = r" if "r \<in> set T" for r
  proof -
    have "(THE q. q \<in> set T \<and> fid q = fid r) = r"
      using that wf_inj[OF assms] by blast
    then show ?thesis by simp
  qed
  then have "relab T ?\<pi> = T" unfolding relab_def by (simp add: map_idI)
  then have "T = relab T ?\<pi>" by simp
  then show ?thesis by (rule exI[of "\<lambda>p. T = relab T p" ?\<pi>])
qed

lemma parentRel_row:
  assumes "foldersWf T" "r \<in> set T"
  shows "(fid r, p) \<in> parentRel T \<longleftrightarrow> r ''parent_folder_id'' = VInt p"
proof
  assume "(fid r, p) \<in> parentRel T"
  then obtain q where q: "q \<in> set T" "fid q = fid r" "q ''parent_folder_id'' = VInt p"
    by (auto simp: parentRel_def)
  from wf_inj[OF assms(1) q(1) assms(2) q(2)] q(3) show "r ''parent_folder_id'' = VInt p" by simp
next
  assume "r ''parent_folder_id'' = VInt p"
  with assms(2) show "(fid r, p) \<in> parentRel T" by (auto simp: parentRel_def)
qed

lemma isRoot_row:
  assumes "foldersWf T" "r \<in> set T"
  shows "isRoot T (fid r) \<longleftrightarrow> r ''parent_folder_id'' = VNull"
proof
  assume "isRoot T (fid r)"
  then obtain q where q: "q \<in> set T" "fid q = fid r" "q ''parent_folder_id'' = VNull"
    by (auto simp: isRoot_def)
  from wf_inj[OF assms(1) q(1) assms(2) q(2)] q(3) show "r ''parent_folder_id'' = VNull" by simp
next
  assume "r ''parent_folder_id'' = VNull"
  with assms(2) show "isRoot T (fid r)" by (auto simp: isRoot_def)
qed

lemma val_eq_VInt: "val_eq v (VInt p) \<longleftrightarrow> v = VInt p"
  by (cases v) auto

lemma update_children:
  assumes wf: "foldersWf T0" and pid: "pid \<noteq> 0"
  shows "map (\<lambda>r. if childOf pid r then r(''path'' := childPath ppath sep (r ''id'')) else r) (relab T0 \<pi>)
     = relab T0 (\<lambda>i. if (i, pid) \<in> parentRel T0 then VText (ppath @ sep @ itoa i) else \<pi> i)"
proof -
  have "(if childOf pid (r(''path'' := \<pi> (fid r)))
         then (r(''path'' := \<pi> (fid r)))(''path'' := childPath ppath sep ((r(''path'' := \<pi> (fid r))) ''id''))
         else r(''path'' := \<pi> (fid r)))
      = r(''path'' := (if (fid r, pid) \<in> parentRel T0 then VText (ppath @ sep @ itoa (fid r)) else \<pi> (fid r)))"
    if r: "r \<in> set T0" for r
  proof -
    from wf_id[OF wf r] have i: "r ''id'' = VInt (fid r)" by simp
    have c: "childOf pid (r(''path'' := \<pi> (fid r))) \<longleftrightarrow> (fid r, pid) \<in> parentRel T0"
      using pid by (simp add: childOf_def val_eq_VInt parentRel_row[OF wf r])
    show ?thesis by (simp add: c i childPath_def)
  qed
  then show ?thesis unfolding relab_def by simp
qed

lemma update_roots:
  assumes wf: "foldersWf T0"
  shows "map (\<lambda>r. if childOf 0 r then r(''path'' := castText (r ''id'')) else r) (relab T0 \<pi>)
     = relab T0 (\<lambda>i. if isRoot T0 i then VText (itoa i) else \<pi> i)"
proof -
  have "(if childOf 0 (r(''path'' := \<pi> (fid r)))
         then (r(''path'' := \<pi> (fid r)))(''path'' := castText ((r(''path'' := \<pi> (fid r))) ''id''))
         else r(''path'' := \<pi> (fid r)))
      = r(''path'' := (if isRoot T0 (fid r) then VText (itoa (fid r)) else \<pi> (fid r)))"
    if r: "r \<in> set T0" for r
  proof -
    from wf_id[OF wf r] have i: "r ''id'' = VInt (fid r)" by simp
    have c: "childOf 0 (r(''path'' := \<pi> (fid r))) \<longleftrightarrow> isRoot T0 (fid r)"
      by (simp add: childOf_def isRoot_row[OF wf r])
    show ?thesis by (simp add: c i)
  qed
  then show ?thesis unfolding relab_def by simp
qed

lemma query_children:
  "filter (childOf pid) (relab T0 \<pi>) = map (\<lambda>r. r(''path'' := \<pi> (fid r))) (filter (childOf pid) T0)"
proof -
  have "childOf pid \<circ> (\<lambda>r. r(''path'' := \<pi> (fid r))) = childOf pid"
    by (auto simp: childOf_def fun_eq_iff)
  then show ?thesis unfolding relab_def by (simp add: filter_map)
qed

lemma recurse_unfold:
  assumes "anonymiseFoldersRecurse E sep (Suc fuel) pid ppath s = Some (Nil, s')"
  shows "\<exists>s1. tables s1 folderTable
        = (if pid = 0
           then map (\<lambda>r. if childOf pid r then r(''path'' := castText (r ''id'')) else r)
                  (tables s folderTable)
           else map (\<lambda>r. if childOf pid r then r(''path'' := childPath ppath sep (r ''id'')) else r)
                  (tables s folderTable))
      \<and> eachRow (recurseRow E sep fuel) (filter (childOf pid) (tables s1 folderTable)) () s1
          = Some ((Nil, ()), s')"
proof -
  let ?stmt = "if pid = 0 then
          sqlUpdate folderTable (\<lambda>r. r(''path'' := castText (r ''id''))) (childOf pid)
        else
          sqlUpdate folderTable (\<lambda>r. r(''path'' := childPath ppath sep (r ''id'')))
            (childOf pid)"
  obtain e0 s0 where ex: "exec E ?stmt s = (e0, s0)" by (cases "exec E ?stmt s")
  from assms ex have e0: "e0 = Nil"
    by (cases e0) (auto simp: Let_def)
  from ex e0 have nf: "\<not> failing E (stmts s)" and s0: "s0 = s\<lparr>tables := ?stmt (tables s), stmts := Suc (stmts s)\<rparr>"
    by (auto simp: exec_def split: if_splits)
  from assms ex e0 have q: "drop_locals (queryFunc E (\<lambda>db. filter (childOf pid) (db folderTable))
      (recurseRow E sep fuel) () s0) = Some (Nil, s')"
    by (simp add: Let_def recurseRow_def[abs_def])
  then have nf2: "\<not> failing E (stmts s0)"
    by (auto simp: queryFunc_def drop_locals_def split: if_splits)
  let ?s1 = "s0\<lparr>stmts := Suc (stmts s0)\<rparr>"
  from q nf2 have "eachRow (recurseRow E sep fuel) (filter (childOf pid) (tables s0 folderTable)) () ?s1
      = Some ((Nil, ()), s')"
    by (auto simp: queryFunc_def drop_locals_def)
  moreover have "tables ?s1 folderTable
        = (if pid = 0
           then map (\<lambda>r. if childOf pid r then r(''path'' := castText (r ''id'')) else r)
                  (tables s folderTable)
           else map (\<lambda>r. if childOf pid r then r(''path'' := childPath ppath sep (r ''id'')) else r)
                  (tables s folderTable))"
    by (simp add: s0 sqlUpdate_def)
  ultimately show ?thesis
    by (intro exI[of _ ?s1]) simp
qed

lemma on_cycle:
  assumes sv: "single_valued R" and c: "(x, x) \<in> R\<^sup>+" and r: "(x, y) \<in> R\<^sup>*"
  shows "(y, y) \<in> R\<^sup>+"
  using r
proof (induction rule: rtrancl_induct)
  case base
  from c show ?case .
next
  case (step y z)
  from step.IH obtain w where w: "(y, w) \<in> R" "(w, y) \<in> R\<^sup>*"
    by (auto dest: tranclD)
  from sv w(1) step.hyps(2) have "w = z" by (auto dest: single_valuedD)
  with w(2) step.hyps(2) show ?case by auto
qed

lemma parentRel_has_row:
  assumes "(x, y) \<in> parentRel T"
  shows "\<exists>r \<in> set T. fid r = x \<and> r ''parent_folder_id'' = VInt y"
  using assms by (auto simp: parentRel_def)

lemma trancl_has_row:
  assumes "(x, y) \<in> (parentRel T)\<^sup>+"
  shows "\<exists>r \<in> set T. fid r = x"
proof -
  from assms obtain z where "(x, z) \<in> parentRel T" by (auto dest: tranclD)
  from parentRel_has_row[OF this] show ?thesis by blast
qed

lemma wf_acyclic:
  assumes wf: "foldersWf T"
  shows "(x, x) \<notin> (parentRel T)\<^sup>+"
proof
  assume c: "(x, x) \<in> (parentRel T)\<^sup>+"
  from trancl_has_row[OF c] obtain r where r: "r \<in> set T" "fid r = x" by blast
  from wf r(1) obtain q where q: "q \<in> set T" "q ''parent_folder_id'' = VNull"
    "(fid r, fid q) \<in> (parentRel T)\<^sup>*"
    unfolding foldersWf_def by blast
  from on_cycle[OF single_valued_parentRel[OF wf] c] q(3) r(2)
  have "(fid q, fid q) \<in> (parentRel T)\<^sup>+" by simp
  then obtain z where "(fid q, z) \<in> parentRel T" by (auto dest: tranclD)
  with parentRel_row[OF wf q(1)] q(2) show False by simp
qed

lemma subtrees_disjoint:
  assumes sv: "single_valued R" and "(x, a) \<in> R\<^sup>*" "(x, b) \<in> R\<^sup>*"
    and "(a, b) \<notin> R\<^sup>+" "(b, a) \<notin> R\<^sup>+"
  shows "a = b"
proof -
  from single_valued_confluent[OF sv assms(2,3)] have "(a, b) \<in> R\<^sup>* \<or> (b, a) \<in> R\<^sup>*" .
  with assms(4,5) show ?thesis by (auto simp: rtrancl_eq_or_trancl)
qed

lemma siblings_unrelated:
  assumes wf: "foldersWf T" and c: "(c, pid) \<in> parentRel T" and c': "(c', pid) \<in> parentRel T"
  shows "(c, c') \<notin> (parentRel T)\<^sup>+"
proof
  assume "(c, c') \<in> (parentRel T)\<^sup>+"
  then obtain y where y: "(c, y) \<in> parentRel T" "(y, c') \<in> (parentRel T)\<^sup>*"
    by (auto dest: tranclD)
  from single_valued_parentRel[OF wf] y(1) c have "y = pid" by (auto dest: single_valuedD)
  with y(2) c' have "(pid, pid) \<in> (parentRel T)\<^sup>+" by auto
  with wf_acyclic[OF wf] show False by blast
qed

lemma roots_unrelated:
  assumes wf: "foldersWf T" and c: "c \<in> set T" "c ''parent_folder_id'' = VNull"
  shows "(fid c, y) \<notin> (parentRel T)\<^sup>+"
proof
  assume "(fid c, y) \<in> (parentRel T)\<^sup>+"
  then obtain z where "(fid c, z) \<in> parentRel T" by (auto dest: tranclD)
  with parentRel_row[OF wf c(1)] c(2) show False by simp
qed

lemma parent_on_chain:
  assumes wf: "foldersWf T" and r: "r \<in> set T" "r ''parent_folder_id'' = VInt p"
    and d: "(fid r, a) \<in> (parentRel T)\<^sup>+"
  shows "p = a \<or> (p, a) \<in> (parentRel T)\<^sup>+"
proof -
  from d obtain z where z: "(fid r, z) \<in> parentRel T" "(z, a) \<in> (parentRel T)\<^sup>*"
    by (auto dest: tranclD)
  from parentRel_row[OF wf r(1)] z(1) r(2) have "z = p" by simp
  with z(2) show ?thesis by (auto simp: rtrancl_eq_or_trancl)
qed

lemma recurseRow_Nil:
  assumes wf: "foldersWf T0" and c: "c \<in> set T0" and pc: "v = VText pc"
    and r: "recurseRow E sep n (c(''path'' := v)) u s = Some ((Nil, u'), s1)"
  shows "anonymiseFoldersRecurse E sep n (fid c) pc s = Some (Nil, s1)"
proof -
  from wf_id[OF wf c] have "scanInt ((c(''path'' := v)) ''id'') = Some (fid c)" by simp
  moreover from pc have "scanString ((c(''path'' := v)) ''path'') = Some pc" by simp
  ultimately have "lift (anonymiseFoldersRecurse E sep n (fid c) pc s) = Some ((Nil, u'), s1)"
    using r by (simp add: recurseRow_def)
  then show ?thesis by (auto simp: lift_def)
qed

lemma eachRow_Cons_Nil:
  assumes "eachRow f (r # rs) v s = Some ((Nil, v'), s')"
  shows "\<exists>v1 s1. f r v s = Some ((Nil, v1), s1) \<and> eachRow f rs v1 s1 = Some ((Nil, v'), s')"
proof -
  from assms obtain y s1 where f0: "f r v s = Some (y, s1)"
    by (cases "f r v s") auto
  obtain e1 v1 where y: "y = (e1, v1)" by (cases y)
  from assms f0 y have e1: "e1 = Nil" by (cases e1) auto
  with assms f0 y show ?thesis by simp
qed

lemma kids_loop:
  assumes wf: "foldersWf T0"
    and IH: "\<And>pid ppath s s' \<pi> q. q \<in> set T0 \<Longrightarrow> fid q = pid
        \<Longrightarrow> anonymiseFoldersRecurse E sep n pid ppath s = Some (Nil, s')
        \<Longrightarrow> tables s folderTable = relab T0 \<pi> \<Longrightarrow> \<pi> pid = VText ppath
        \<Longrightarrow> \<exists>\<pi>'. tables s' folderTable = relab T0 \<pi>' \<and> unchanged_outside T0 {pid} \<pi> \<pi>'
              \<and> paths_below sep T0 pid \<pi>'"
  shows "set kids \<subseteq> set T0 \<Longrightarrow> distinct (map fid kids)
     \<Longrightarrow> (\<forall>c \<in> set kids. \<forall>c' \<in> set kids. (fid c, fid c') \<notin> (parentRel T0)\<^sup>+)
     \<Longrightarrow> tables s folderTable = relab T0 \<pi>
     \<Longrightarrow> (\<forall>c \<in> set kids. (\<exists>pc. \<pi>1 (fid c) = VText pc) \<and> \<pi> (fid c) = \<pi>1 (fid c))
     \<Longrightarrow> eachRow (recurseRow E sep n) (map (\<lambda>r. r(''path'' := \<pi>1 (fid r))) kids) () s
           = Some ((Nil, ()), s')
     \<Longrightarrow> \<exists>\<pi>'. tables s' folderTable = relab T0 \<pi>' \<and> unchanged_outside T0 (fid ` set kids) \<pi> \<pi>'
           \<and> (\<forall>c \<in> set kids. paths_below sep T0 (fid c) \<pi>')"
proof (induction kids arbitrary: s \<pi>)
  case Nil
  then have "s' = s" by simp
  with Nil.prems(4) show ?case
    by (intro exI[of _ \<pi>]) (simp add: unchanged_outside_def)
next
  case (Cons c kids)
  let ?R = "parentRel T0"
  note sv = single_valued_parentRel[OF wf]
  from Cons.prems(1) have cT: "c \<in> set T0" and kT: "set kids \<subseteq> set T0" by auto
  from Cons.prems(2) have cnk: "fid c \<notin> fid ` set kids" and dk: "distinct (map fid kids)" by auto
  from Cons.prems(3) have pw: "\<forall>a \<in> set kids. \<forall>b \<in> set kids. (fid a, fid b) \<notin> ?R\<^sup>+"
    and ck: "\<forall>k \<in> set kids. (fid c, fid k) \<notin> ?R\<^sup>+ \<and> (fid k, fid c) \<notin> ?R\<^sup>+"
    by auto
  from Cons.prems(5) obtain pc where pc: "\<pi>1 (fid c) = VText pc" "\<pi> (fid c) = VText pc" by auto
  from eachRow_Cons_Nil[OF Cons.prems(6)[unfolded list.map]] obtain v1 s1 where
    f: "recurseRow E sep n (c(''path'' := \<pi>1 (fid c))) () s = Some ((Nil, v1), s1)"
    and rest0: "eachRow (recurseRow E sep n) (map (\<lambda>r. r(''path'' := \<pi>1 (fid r))) kids) v1 s1
      = Some ((Nil, ()), s')" by (elim exE conjE)
  have v1: "v1 = ()" by simp
  note rest = rest0[unfolded v1]
  from recurseRow_Nil[OF wf cT pc(1) f]
  have rc: "anonymiseFoldersRecurse E sep n (fid c) pc s = Some (Nil, s1)" .
  from IH[OF cT refl rc Cons.prems(4) pc(2)] obtain \<pi>a where
    a: "tables s1 folderTable = relab T0 \<pi>a" "unchanged_outside T0 {fid c} \<pi> \<pi>a"
       "paths_below sep T0 (fid c) \<pi>a" by blast
  have keep: "\<forall>k \<in> set kids. (\<exists>pk. \<pi>1 (fid k) = VText pk) \<and> \<pi>a (fid k) = \<pi>1 (fid k)"
  proof
    fix k assume k: "k \<in> set kids"
    with kT have kT0: "k \<in> set T0" by blast
    from ck k have "(fid k, fid c) \<notin> ?R\<^sup>+" by blast
    with a(2) kT0 have "\<pi>a (fid k) = \<pi> (fid k)" by (simp add: unchanged_outside_def)
    with Cons.prems(5) k show "(\<exists>pk. \<pi>1 (fid k) = VText pk) \<and> \<pi>a (fid k) = \<pi>1 (fid k)" by simp
  qed
  from Cons.IH[OF kT dk pw a(1) keep rest] obtain \<pi>' where
    b: "tables s' folderTable = relab T0 \<pi>'" "unchanged_outside T0 (fid ` set kids) \<pi>a \<pi>'"
       "\<forall>k \<in> set kids. paths_below sep T0 (fid k) \<pi>'" by blast
  text \<open>nothing below \<open>c\<close>, and not \<open>c\<close> itself, lies below one of the other kids\<close>
  have below_c: "(x, fid k) \<notin> ?R\<^sup>+" if "(x, fid c) \<in> ?R\<^sup>*" "k \<in> set kids" for x k
  proof
    assume "(x, fid k) \<in> ?R\<^sup>+"
    then have "(x, fid k) \<in> ?R\<^sup>*" by (rule trancl_into_rtrancl)
    from subtrees_disjoint[OF sv that(1) this] ck that(2) have "fid c = fid k" by blast
    with cnk that(2) show False by auto
  qed
  have 1: "unchanged_outside T0 (fid ` set (c # kids)) \<pi> \<pi>'"
    unfolding unchanged_outside_def
  proof (intro ballI impI)
    fix r assume r: "r \<in> set T0" and o: "\<forall>a \<in> fid ` set (c # kids). (fid r, a) \<notin> ?R\<^sup>+"
    from o have "\<forall>a \<in> fid ` set kids. (fid r, a) \<notin> ?R\<^sup>+" "(fid r, fid c) \<notin> ?R\<^sup>+" by auto
    with a(2) b(2) r show "\<pi>' (fid r) = \<pi> (fid r)" by (simp add: unchanged_outside_def)
  qed
  have 2: "paths_below sep T0 (fid c) \<pi>'"
    unfolding paths_below_def
  proof (intro ballI allI impI)
    fix r p assume r: "r \<in> set T0"
      and h: "(fid r, fid c) \<in> ?R\<^sup>+ \<and> r ''parent_folder_id'' = VInt p"
    from a(3) r h obtain pp where pp: "\<pi>a p = VText pp" "\<pi>a (fid r) = VText (pp @ sep @ itoa (fid r))"
      unfolding paths_below_def by blast
    from h have "(fid r, fid c) \<in> ?R\<^sup>*" by (simp add: trancl_into_rtrancl)
    from below_c[OF this] b(2) r have r': "\<pi>' (fid r) = \<pi>a (fid r)"
      by (simp add: unchanged_outside_def)
    from parent_on_chain[OF wf r _ _] h have pch: "p = fid c \<or> (p, fid c) \<in> ?R\<^sup>+" by blast
    then have pstar: "(p, fid c) \<in> ?R\<^sup>*" by (auto intro: trancl_into_rtrancl)
    from pch obtain rp where rp: "rp \<in> set T0" "fid rp = p"
      using cT trancl_has_row[of p "fid c" T0] by blast
    from below_c[OF pstar] b(2) rp have "\<pi>' p = \<pi>a p"
      by (auto simp: unchanged_outside_def)
    with pp r' show "\<exists>pp. \<pi>' p = VText pp \<and> \<pi>' (fid r) = VText (pp @ sep @ itoa (fid r))"
      by simp
  qed
  from b(1) 1 2 b(3) show ?case
    by (intro exI[of _ \<pi>']) simp
qed

lemma childOf_kid:
  assumes wf: "foldersWf T0" and r: "r \<in> set T0" and pid: "pid \<noteq> 0"
  shows "childOf pid r \<longleftrightarrow> (fid r, pid) \<in> parentRel T0"
  using pid by (simp add: childOf_def val_eq_VInt parentRel_row[OF wf r])

lemma recurse_spec:
  assumes wf: "foldersWf T0"
  shows "q \<in> set T0 \<Longrightarrow> fid q = pid
     \<Longrightarrow> anonymiseFoldersRecurse E sep n pid ppath s = Some (Nil, s')
     \<Longrightarrow> tables s folderTable = relab T0 \<pi> \<Longrightarrow> \<pi> pid = VText ppath
     \<Longrightarrow> \<exists>\<pi>'. tables s' folderTable = relab T0 \<pi>' \<and> unchanged_outside T0 {pid} \<pi> \<pi>'
           \<and> paths_below sep T0 pid \<pi>'"
proof (induction n arbitrary: q pid ppath s s' \<pi>)
  case 0
  then show ?case by simp
next
  case (Suc n)
  let ?R = "parentRel T0"
  let ?kids = "filter (childOf pid) T0"
  let ?\<pi>1 = "\<lambda>i. if (i, pid) \<in> ?R then VText (ppath @ sep @ itoa i) else \<pi> i"
  from wf_id[OF wf Suc.prems(1)] Suc.prems(2) have pid: "pid \<noteq> 0" by simp
  from recurse_unfold[OF Suc.prems(3)] pid obtain s1 where
    t1: "tables s1 folderTable
        = map (\<lambda>r. if childOf pid r then r(''path'' := childPath ppath sep (r ''id'')) else r)
            (tables s folderTable)"
    and loop0: "eachRow (recurseRow E sep n) (filter (childOf pid) (tables s1 folderTable)) () s1
          = Some ((Nil, ()), s')" by auto
  from t1 Suc.prems(4) update_children[OF wf pid, of ppath sep \<pi>]
  have s1: "tables s1 folderTable = relab T0 ?\<pi>1" by simp
  from loop0 have loop: "eachRow (recurseRow E sep n)
      (map (\<lambda>r. r(''path'' := ?\<pi>1 (fid r))) ?kids) () s1 = Some ((Nil, ()), s')"
    by (simp only: s1 query_children)
  have kin: "(fid c, pid) \<in> ?R" if "c \<in> set ?kids" for c
    using that childOf_kid[OF wf _ pid, of c] by simp
  have k1: "set ?kids \<subseteq> set T0" by auto
  have k2: "distinct (map fid ?kids)"
    using wf by (simp add: foldersWf_def distinct_map_filter)
  have k3: "\<forall>c \<in> set ?kids. \<forall>c' \<in> set ?kids. (fid c, fid c') \<notin> ?R\<^sup>+"
    using siblings_unrelated[OF wf kin kin] by blast
  have k5: "\<forall>c \<in> set ?kids. (\<exists>pc. ?\<pi>1 (fid c) = VText pc) \<and> ?\<pi>1 (fid c) = ?\<pi>1 (fid c)"
    using kin by simp
  have "\<exists>\<pi>'. tables s' folderTable = relab T0 \<pi>' \<and> unchanged_outside T0 (fid ` set ?kids) ?\<pi>1 \<pi>'
           \<and> (\<forall>c \<in> set ?kids. paths_below sep T0 (fid c) \<pi>')"
  proof (rule kids_loop[of T0 E sep n ?kids s1 ?\<pi>1 ?\<pi>1 s', OF wf _ k1 k2 k3 s1 k5 loop])
    fix pid0 ppath0 s0 s0' \<pi>0 q0
    assume "q0 \<in> set T0" "fid q0 = pid0"
      "anonymiseFoldersRecurse E sep n pid0 ppath0 s0 = Some (Nil, s0')"
      "tables s0 folderTable = relab T0 \<pi>0" "\<pi>0 pid0 = VText ppath0"
    then show "\<exists>\<pi>'. tables s0' folderTable = relab T0 \<pi>' \<and> unchanged_outside T0 {pid0} \<pi>0 \<pi>'
           \<and> paths_below sep T0 pid0 \<pi>'"
      by (rule Suc.IH)
  qed
  then obtain \<pi>' where
    p: "tables s' folderTable = relab T0 \<pi>'" "unchanged_outside T0 (fid ` set ?kids) ?\<pi>1 \<pi>'"
       "\<forall>c \<in> set ?kids. paths_below sep T0 (fid c) \<pi>'" by blast
  have notbelow: "\<forall>a \<in> fid ` set ?kids. (x, a) \<notin> ?R\<^sup>+" if "(x, pid) \<notin> ?R\<^sup>+" for x
  proof
    fix a assume "a \<in> fid ` set ?kids"
    then have "(a, pid) \<in> ?R" using kin by auto
    with that show "(x, a) \<notin> ?R\<^sup>+" by (auto intro: trancl_into_trancl)
  qed
  have 1: "unchanged_outside T0 {pid} \<pi> \<pi>'"
    unfolding unchanged_outside_def
  proof (intro ballI impI)
    fix r assume r: "r \<in> set T0" and "\<forall>a \<in> {pid}. (fid r, a) \<notin> ?R\<^sup>+"
    then have o: "(fid r, pid) \<notin> ?R\<^sup>+" by simp
    then have "(fid r, pid) \<notin> ?R" by auto
    then have "?\<pi>1 (fid r) = \<pi> (fid r)" by simp
    moreover from p(2) r notbelow[OF o] have "\<pi>' (fid r) = ?\<pi>1 (fid r)"
      by (simp add: unchanged_outside_def)
    ultimately show "\<pi>' (fid r) = \<pi> (fid r)" by simp
  qed
  from wf_acyclic[OF wf] have npp: "(pid, pid) \<notin> ?R\<^sup>+" .
  from 1 Suc.prems(1,2,5) npp have ppid: "\<pi>' pid = VText ppath"
    by (auto simp: unchanged_outside_def)
  have 2: "paths_below sep T0 pid \<pi>'"
    unfolding paths_below_def
  proof (intro ballI allI impI)
    fix r p assume r: "r \<in> set T0"
      and h: "(fid r, pid) \<in> ?R\<^sup>+ \<and> r ''parent_folder_id'' = VInt p"
    from parent_on_chain[OF wf r _ _] h have "p = pid \<or> (p, pid) \<in> ?R\<^sup>+" by blast
    then show "\<exists>pp. \<pi>' p = VText pp \<and> \<pi>' (fid r) = VText (pp @ sep @ itoa (fid r))"
    proof
      assume pp: "p = pid"
      with h r have rk: "r \<in> set ?kids" using childOf_kid[OF wf r pid] parentRel_row[OF wf r] by simp
      with k3 have "\<forall>a \<in> fid ` set ?kids. (fid r, a) \<notin> ?R\<^sup>+" by blast
      with p(2) r have "\<pi>' (fid r) = ?\<pi>1 (fid r)" by (simp add: unchanged_outside_def)
      with kin[OF rk] have "\<pi>' (fid r) = VText (ppath @ sep @ itoa (fid r))" by simp
      with ppid pp show ?thesis by simp
    next
      assume "(p, pid) \<in> ?R\<^sup>+"
      then obtain c where c: "(p, c) \<in> ?R\<^sup>*" "(c, pid) \<in> ?R" by (auto dest: tranclD2)
      from parentRel_has_row[OF c(2)] obtain rc where
        rc: "rc \<in> set T0" "fid rc = c" "rc ''parent_folder_id'' = VInt pid" by blast
      with childOf_kid[OF wf rc(1) pid] c(2) have rck: "rc \<in> set ?kids" by simp
      from h r have "(fid r, p) \<in> ?R" using parentRel_row[OF wf r] by simp
      with c(1) have "(fid r, fid rc) \<in> ?R\<^sup>+" using rc(2) by auto
      with p(3) rck r h show ?thesis unfolding paths_below_def by blast
    qed
  qed
  from p(1) 1 2 show ?case by (intro exI[of _ \<pi>']) simp
qed

lemma fid_upd [simp]: "fid (r(''path'' := v)) = fid r"
  by (simp add: fid_def)

lemma anonymiseFolders_Nil:
  assumes "anonymiseFolders E sep fuel s = Some (Nil, s')"
  shows "anonymiseFoldersRecurse E sep fuel 0 [] s = Some (Nil, s')"
proof -
  obtain x where x: "anonymiseFoldersRecurse E sep fuel 0 [] s = Some x"
    using assms by (cases "anonymiseFoldersRecurse E sep fuel 0 [] s")
      (auto simp: anonymiseFolders_def WithTxn_def lift_def drop_locals_def)
  obtain e s1 where xs: "x = (e, s1)" by (cases x)
  from assms x xs have "e = Nil \<and> s1 = s'"
    by (cases e) (auto simp: anonymiseFolders_def WithTxn_def lift_def drop_locals_def)
  with x xs show ?thesis by simp
qed

text \<open>The paths after a run of the folder stage that returns \<open>nil\<close>.\<close>

lemma tree_paths_of_run:
  assumes wf: "foldersWf (tables s folderTable)"
    and run: "anonymiseFolders E sep fuel s = Some (Nil, s')"
  shows "tree_paths sep (tables s' folderTable)
     \<and> map (\<lambda>r. (r ''id'', r ''parent_folder_id'')) (tables s' folderTable)
         = map (\<lambda>r. (r ''id'', r ''parent_folder_id'')) (tables s folderTable)"
proof -
  let ?T0 = "tables s folderTable"
  let ?R = "parentRel ?T0"
  let ?kids = "filter (childOf 0) ?T0"
  from relab_self[OF wf] obtain \<pi>0 where p0: "?T0 = relab ?T0 \<pi>0" by blast
  let ?\<pi>1 = "\<lambda>i. if isRoot ?T0 i then VText (itoa i) else \<pi>0 i"
  from anonymiseFolders_Nil[OF run] obtain n where fuel: "fuel = Suc n"
    and rec: "anonymiseFoldersRecurse E sep (Suc n) 0 [] s = Some (Nil, s')"
    by (cases fuel) auto
  from recurse_unfold[OF rec] obtain s1 where
    t1: "tables s1 folderTable
        = map (\<lambda>r. if childOf 0 r then r(''path'' := castText (r ''id'')) else r) ?T0"
    and loop0: "eachRow (recurseRow E sep n) (filter (childOf 0) (tables s1 folderTable)) () s1
          = Some ((Nil, ()), s')" by auto
  from t1 update_roots[OF wf, of \<pi>0] p0
  have s1: "tables s1 folderTable = relab ?T0 ?\<pi>1" by simp
  from loop0 have loop: "eachRow (recurseRow E sep n)
      (map (\<lambda>r. r(''path'' := ?\<pi>1 (fid r))) ?kids) () s1 = Some ((Nil, ()), s')"
    by (simp only: s1 query_children)
  have kroot: "c ''parent_folder_id'' = VNull" if "c \<in> set ?kids" for c
    using that by (simp add: childOf_def)
  have k1: "set ?kids \<subseteq> set ?T0" by auto
  have k2: "distinct (map fid ?kids)"
    using wf by (simp add: foldersWf_def distinct_map_filter)
  have k3: "\<forall>c \<in> set ?kids. \<forall>c' \<in> set ?kids. (fid c, fid c') \<notin> ?R\<^sup>+"
  proof (intro ballI)
    fix c c' assume c: "c \<in> set ?kids"
    then have "c \<in> set ?T0" by simp
    from roots_unrelated[OF wf this kroot[OF c]] show "(fid c, fid c') \<notin> ?R\<^sup>+" .
  qed
  have k5: "\<forall>c \<in> set ?kids. (\<exists>pc. ?\<pi>1 (fid c) = VText pc) \<and> ?\<pi>1 (fid c) = ?\<pi>1 (fid c)"
    using isRoot_row[OF wf] kroot by auto
  have "\<exists>\<pi>'. tables s' folderTable = relab ?T0 \<pi>' \<and> unchanged_outside ?T0 (fid ` set ?kids) ?\<pi>1 \<pi>'
           \<and> (\<forall>c \<in> set ?kids. paths_below sep ?T0 (fid c) \<pi>')"
  proof (rule kids_loop[of ?T0 E sep n ?kids s1 ?\<pi>1 ?\<pi>1 s', OF wf _ k1 k2 k3 s1 k5 loop])
    fix pid0 ppath0 s0 s0' \<pi>0' q0
    assume "q0 \<in> set ?T0" "fid q0 = pid0"
      "anonymiseFoldersRecurse E sep n pid0 ppath0 s0 = Some (Nil, s0')"
      "tables s0 folderTable = relab ?T0 \<pi>0'" "\<pi>0' pid0 = VText ppath0"
    then show "\<exists>\<pi>'. tables s0' folderTable = relab ?T0 \<pi>' \<and> unchanged_outside ?T0 {pid0} \<pi>0' \<pi>'
           \<and> paths_below sep ?T0 pid0 \<pi>'"
      by (rule recurse_spec[OF wf])
  qed
  then obtain \<pi>' where
    p: "tables s' folderTable = relab ?T0 \<pi>'" "unchanged_outside ?T0 (fid ` set ?kids) ?\<pi>1 \<pi>'"
       "\<forall>c \<in> set ?kids. paths_below sep ?T0 (fid c) \<pi>'" by blast
  have "tree_paths sep (relab ?T0 \<pi>')"
    unfolding tree_paths_def
  proof (intro ballI conjI impI allI)
    fix r' assume "r' \<in> set (relab ?T0 \<pi>')"
    then obtain r where r: "r \<in> set ?T0" "r' = r(''path'' := \<pi>' (fid r))"
      by (auto simp: relab_def)
    {
      assume "r' ''parent_folder_id'' = VNull"
      with r have root: "r ''parent_folder_id'' = VNull" by simp
      from roots_unrelated[OF wf r(1) root] p(2) r(1)
      have "\<pi>' (fid r) = ?\<pi>1 (fid r)" by (simp add: unchanged_outside_def)
      with isRoot_row[OF wf r(1)] root r(2)
      show "r' ''path'' = VText (itoa (fid r'))" by simp
    }
    {
      fix p0 assume "r' ''parent_folder_id'' = VInt p0"
      with r have par: "r ''parent_folder_id'' = VInt p0" by simp
      from wf r(1) obtain q where q: "q \<in> set ?T0" "q ''parent_folder_id'' = VNull"
        "(fid r, fid q) \<in> ?R\<^sup>*"
        unfolding foldersWf_def by blast
      have "fid r \<noteq> fid q"
      proof
        assume "fid r = fid q"
        from wf_inj[OF wf r(1) q(1) this] par q(2) show False by simp
      qed
      with q(3) have below: "(fid r, fid q) \<in> ?R\<^sup>+" by (auto simp: rtrancl_eq_or_trancl)
      from q have qk: "q \<in> set ?kids" by (simp add: childOf_def)
      with p(3) r(1) par below obtain pp where
        pp: "\<pi>' p0 = VText pp" "\<pi>' (fid r) = VText (pp @ sep @ itoa (fid r))"
        unfolding paths_below_def by blast
      from parent_on_chain[OF wf r(1) par below] obtain rp where
        rp: "rp \<in> set ?T0" "fid rp = p0"
        using q(1) trancl_has_row[of p0 "fid q" ?T0] by blast
      let ?q' = "rp(''path'' := \<pi>' (fid rp))"
      from rp(1) have "?q' \<in> set (relab ?T0 \<pi>')" by (auto simp: relab_def)
      moreover from wf_id[OF wf rp(1)] rp(2) have "?q' ''id'' = VInt p0" by simp
      moreover from pp(1) rp(2) have "?q' ''path'' = VText pp" by simp
      moreover from pp(2) r(2) have "r' ''path'' = VText (pp @ sep @ itoa (fid r'))" by simp
      ultimately show "\<exists>q \<in> set (relab ?T0 \<pi>'). \<exists>pp. q ''id'' = VInt p0 \<and> q ''path'' = VText pp
          \<and> r' ''path'' = VText (pp @ sep @ itoa (fid r'))" by blast
    }
  qed
  moreover have "map (\<lambda>r. (r ''id'', r ''parent_folder_id'')) (relab ?T0 \<pi>')
      = map (\<lambda>r. (r ''id'', r ''parent_folder_id'')) ?T0"
    by (simp add: relab_def)
  ultimately show ?thesis by (simp add: p(1))
qed

text \<open>The folder stage returns \<open>nil\<close> when no statement fails and the fuel exceeds the number of folders.\<close>

lemma pathsOnly_refl: "pathsOnly T T"
  unfolding pathsOnly_def
  by (rule list_all2_refl) (metis fun_upd_triv)

lemma pathsOnly_update:
  assumes "pathsOnly T0 T"
  shows "pathsOnly T0 (map (\<lambda>r. if p r then r(''path'' := g r) else r) T)"
proof -
  have "\<exists>v. (if p r then r(''path'' := g r) else r) = r0(''path'' := v)"
    if "\<exists>v. r = r0(''path'' := v)" for r0 r
    using that by auto
  with assms have "list_all2 (\<lambda>r0 r. \<exists>v. (if p r then r(''path'' := g r) else r) = r0(''path'' := v)) T0 T"
    unfolding pathsOnly_def by (rule list_all2_mono)
  then show ?thesis by (simp add: pathsOnly_def list_all2_map2)
qed

lemma recurseRow_inv_step:
  assumes IH: "\<And>pid ppath s x s'. J (tables s) \<Longrightarrow> anonymiseFoldersRecurse E sep n pid ppath s = Some (x, s')
      \<Longrightarrow> J (tables s')"
    and "J (tables s)" and "recurseRow E sep n r v s = Some (y, s')"
  shows "J (tables s')"
proof (cases "scanInt (r ''id'')")
  case None
  with assms(2,3) show ?thesis by (auto simp: recurseRow_def)
next
  case (Some i)
  show ?thesis
  proof (cases "scanString (r ''path'')")
    case None
    with assms(2,3) Some show ?thesis by (auto simp: recurseRow_def)
  next
    case (Some pth)
    with assms(3) \<open>scanInt (r ''id'') = Some i\<close>
    have "lift (anonymiseFoldersRecurse E sep n i pth s) = Some (y, s')"
      by (simp add: recurseRow_def)
    then obtain x where "anonymiseFoldersRecurse E sep n i pth s = Some (x, s')"
      by (auto simp: lift_def)
    from IH[OF assms(2) this] show ?thesis .
  qed
qed

lemma recurse_pathsOnly:
  "pathsOnly T0 (tables s folderTable) \<Longrightarrow> anonymiseFoldersRecurse E sep n pid ppath s = Some (x, s')
     \<Longrightarrow> pathsOnly T0 (tables s' folderTable)"
proof (induction n arbitrary: pid ppath s x s')
  case 0
  then show ?case by simp
next
  case (Suc n)
  let ?J = "\<lambda>db. pathsOnly T0 (db folderTable)"
  let ?stmt = "if pid = 0 then
          sqlUpdate folderTable (\<lambda>r. r(''path'' := castText (r ''id''))) (childOf pid)
        else
          sqlUpdate folderTable (\<lambda>r. r(''path'' := childPath ppath sep (r ''id'')))
            (childOf pid)"
  obtain e0 s0 where ex: "exec E ?stmt s = (e0, s0)" by (cases "exec E ?stmt s")
  have st: "?J (?stmt db)" if "?J db" for db
    using pathsOnly_update[OF that] by (simp add: sqlUpdate_def)
  from exec_inv[of ?J, OF Suc.prems(1) st ex] have j0: "?J (tables s0)" .
  show ?case
  proof (cases e0)
    case Nil
    with Suc.prems(2) ex have "drop_locals (queryFunc E (\<lambda>db. filter (childOf pid) (db folderTable))
        (recurseRow E sep n) () s0) = Some (x, s')"
      by (simp add: Let_def recurseRow_def[abs_def])
    then obtain y where q: "queryFunc E (\<lambda>db. filter (childOf pid) (db folderTable))
        (recurseRow E sep n) () s0 = Some (y, s')"
      by (auto simp: drop_locals_def)
    show ?thesis
    proof (rule queryFunc_inv[of ?J "recurseRow E sep n", OF _ j0 q])
      fix r v s1 y1 s2
      assume a: "?J (tables s1)" "recurseRow E sep n r v s1 = Some (y1, s2)"
      show "?J (tables s2)"
      proof (rule recurseRow_inv_step[where J = ?J and E = E and sep = sep and n = n, OF _ a])
        fix pid0 ppath0 s3 x3 s4
        assume "pathsOnly T0 (tables s3 folderTable)"
          "anonymiseFoldersRecurse E sep n pid0 ppath0 s3 = Some (x3, s4)"
        then show "pathsOnly T0 (tables s4 folderTable)" by (rule Suc.IH)
      qed
    qed
  next
    case (Err m)
    with Suc.prems(2) ex have "s' = s0" by (simp add: Let_def)
    with j0 show ?thesis by simp
  next
    case (Panic m)
    with Suc.prems(2) ex have "s' = s0" by (simp add: Let_def)
    with j0 show ?thesis by simp
  qed
qed

lemma below_subset: "below T x \<subseteq> fid ` set T"
  using trancl_has_row[of _ x T] by (auto simp: below_def)

lemma below_child:
  assumes wf: "foldersWf T" and c: "(c, p) \<in> parentRel T"
  shows "card (below T c) < card (below T p)"
proof (rule psubset_card_mono)
  show "finite (below T p)" using below_subset[of T p] by (rule finite_subset) simp
  have "below T c \<subseteq> below T p"
    using c by (auto simp: below_def intro: trancl_into_trancl)
  moreover have "c \<in> below T p" using c by (simp add: below_def)
  moreover have "c \<notin> below T c" using wf_acyclic[OF wf] by (simp add: below_def)
  ultimately show "below T c \<subset> below T p" by blast
qed

lemma below_row:
  assumes wf: "foldersWf T" and q: "q \<in> set T"
  shows "card (below T (fid q)) < length T"
proof -
  have "below T (fid q) \<subseteq> fid ` set T - {fid q}"
    using below_subset[of T "fid q"] wf_acyclic[OF wf, of "fid q"] by (auto simp: below_def)
  then have "card (below T (fid q)) \<le> card (fid ` set T - {fid q})"
    by (rule card_mono[rotated]) simp
  also have "\<dots> < card (fid ` set T)"
    using q by (intro card_Diff1_less) auto
  also have "\<dots> \<le> length T"
    by (rule order_trans[OF card_image_le card_length]) simp
  finally show ?thesis .
qed

lemma pathsOnly_row:
  assumes "pathsOnly T0 T" "r \<in> set T"
  shows "\<exists>r0 \<in> set T0. \<exists>v. r = r0(''path'' := v)"
proof -
  from assms(2) obtain j where j: "j < length T" "T ! j = r" by (auto simp: in_set_conv_nth)
  from assms(1) have l: "length T0 = length T" and
    "\<forall>i < length T0. \<exists>v. T ! i = (T0 ! i)(''path'' := v)"
    by (auto simp: pathsOnly_def list_all2_conv_all_nth)
  with j have "\<exists>v. r = (T0 ! j)(''path'' := v)" by auto
  moreover from j l have "T0 ! j \<in> set T0" by simp
  ultimately show ?thesis by blast
qed

lemma eachRow_succeeds:
  assumes step: "\<And>r s. r \<in> set rows \<Longrightarrow> J (tables s)
      \<Longrightarrow> \<exists>s'. f r () s = Some ((Nil, ()), s') \<and> J (tables s')"
  shows "J (tables s) \<Longrightarrow> \<exists>s'. eachRow f rows () s = Some ((Nil, ()), s') \<and> J (tables s')"
  using step
proof (induction rows arbitrary: s)
  case Nil
  then show ?case by simp
next
  case (Cons r rows)
  from Cons.prems(2)[of r s] Cons.prems(1) obtain s1 where
    f: "f r () s = Some ((Nil, ()), s1)" and j: "J (tables s1)" by auto
  have "\<exists>s'. eachRow f rows () s1 = Some ((Nil, ()), s') \<and> J (tables s')"
  proof (rule Cons.IH[OF j])
    fix r' and s2 :: st assume "r' \<in> set rows" "J (tables s2)"
    then show "\<exists>s'. f r' () s2 = Some ((Nil, ()), s') \<and> J (tables s')"
      using Cons.prems(2)[of r' s2] by simp
  qed
  with f show ?case by simp
qed

lemma recurse_Suc_succeeds:
  assumes wf: "foldersWf T0" and nf: "\<forall>k. \<not> failing E k"
    and IH: "\<And>q pid ppath s. q \<in> set T0 \<Longrightarrow> fid q = pid \<Longrightarrow> card (below T0 pid) < n
        \<Longrightarrow> pathsOnly T0 (tables s folderTable)
        \<Longrightarrow> \<exists>s'. anonymiseFoldersRecurse E sep n pid ppath s = Some (Nil, s')"
    and kids: "\<forall>t0 \<in> set T0. childOf pid t0 \<longrightarrow> card (below T0 (fid t0)) < n"
    and J: "pathsOnly T0 (tables s folderTable)"
  shows "\<exists>s'. anonymiseFoldersRecurse E sep (Suc n) pid ppath s = Some (Nil, s')"
proof -
  let ?J = "\<lambda>db. pathsOnly T0 (db folderTable)"
  let ?g = "\<lambda>r. if pid = 0 then castText (r ''id'') else childPath ppath sep (r ''id'')"
  let ?upd = "\<lambda>r. if childOf pid r then r(''path'' := ?g r) else r"
  let ?stmt = "if pid = 0 then
          sqlUpdate folderTable (\<lambda>r. r(''path'' := castText (r ''id''))) (childOf pid)
        else
          sqlUpdate folderTable (\<lambda>r. r(''path'' := childPath ppath sep (r ''id'')))
            (childOf pid)"
  let ?s0 = "s\<lparr>tables := ?stmt (tables s), stmts := Suc (stmts s)\<rparr>"
  let ?s1 = "?s0\<lparr>stmts := Suc (stmts ?s0)\<rparr>"
  let ?rows = "filter (childOf pid) (tables ?s0 folderTable)"
  from nf have ex: "exec E ?stmt s = (Nil, ?s0)" by (simp add: exec_def)
  have t0: "?stmt (tables s) folderTable = map ?upd (tables s folderTable)"
    by (simp add: sqlUpdate_def)
  have j1: "?J (tables ?s1)"
  proof (cases "pid = 0")
    case True
    with pathsOnly_update[OF J, of "childOf pid" "\<lambda>r. castText (r ''id'')"] show ?thesis
      by (simp add: sqlUpdate_def)
  next
    case False
    with pathsOnly_update[OF J, of "childOf pid" "\<lambda>r. childPath ppath sep (r ''id'')"]
    show ?thesis by (simp add: sqlUpdate_def)
  qed
  have step: "\<exists>s'. recurseRow E sep n r () s2 = Some ((Nil, ()), s') \<and> ?J (tables s')"
    if r: "r \<in> set ?rows" and j2: "?J (tables s2)" for r s2
  proof -
    from r have "r \<in> set (map ?upd (tables s folderTable))" and cr: "childOf pid r"
      by (simp_all add: t0 del: set_map)
    then obtain t where t: "t \<in> set (tables s folderTable)" "r = ?upd t"
      by auto
    from pathsOnly_row[OF J t(1)] obtain r0 v where r0: "r0 \<in> set T0" "t = r0(''path'' := v)"
      by blast
    have same: "childOf pid (x(''path'' := w)) = childOf pid x" for x w
      by (simp add: childOf_def)
    from cr t(2) have ct: "childOf pid t" by (auto simp: same split: if_splits)
    with r0(2) have c0: "childOf pid r0" by (simp add: same)
    from wf_id[OF wf r0(1)] have i0: "r0 ''id'' = VInt (fid r0)" by simp
    from ct t(2) r0(2) i0 have rid: "r ''id'' = VInt (fid r0)"
      and "\<exists>pth. r ''path'' = VText pth"
      by (auto simp: childPath_def)
    then obtain pth where pth: "r ''path'' = VText pth" by blast
    from kids r0(1) c0 have "card (below T0 (fid r0)) < n" by blast
    from IH[OF r0(1) refl this j2] obtain s' where
      rec: "anonymiseFoldersRecurse E sep n (fid r0) pth s2 = Some (Nil, s')" by blast
    from recurse_pathsOnly[OF j2 rec] have "?J (tables s')" .
    moreover from rec rid pth have "recurseRow E sep n r () s2 = Some ((Nil, ()), s')"
      by (simp add: recurseRow_def lift_def)
    ultimately show ?thesis by blast
  qed
  from eachRow_succeeds[of ?rows ?J "recurseRow E sep n", OF step j1] obtain s' where
    e: "eachRow (recurseRow E sep n) ?rows () ?s1 = Some ((Nil, ()), s')" by blast
  from nf have "queryFunc E (\<lambda>db. filter (childOf pid) (db folderTable)) (recurseRow E sep n) () ?s0
      = eachRow (recurseRow E sep n) ?rows () ?s1"
    by (simp add: queryFunc_def)
  with e ex have "anonymiseFoldersRecurse E sep (Suc n) pid ppath s = Some (Nil, s')"
    by (simp add: Let_def recurseRow_def[abs_def] drop_locals_def)
  then show ?thesis by blast
qed

lemma recurse_succeeds:
  assumes wf: "foldersWf T0" and nf: "\<forall>k. \<not> failing E k"
  shows "pid \<noteq> 0 \<Longrightarrow> card (below T0 pid) < n \<Longrightarrow> pathsOnly T0 (tables s folderTable)
     \<Longrightarrow> \<exists>s'. anonymiseFoldersRecurse E sep n pid ppath s = Some (Nil, s')"
proof (induction n arbitrary: pid ppath s)
  case 0
  then show ?case by simp
next
  case (Suc n)
  show ?case
  proof (rule recurse_Suc_succeeds[OF wf nf _ _ Suc.prems(3)])
    fix q pid' ppath' and s2 :: st
    assume "q \<in> set T0" "fid q = pid'" "card (below T0 pid') < n"
      "pathsOnly T0 (tables s2 folderTable)"
    moreover from this(1,2) wf have "pid' \<noteq> 0" by (auto simp: foldersWf_def)
    ultimately show "\<exists>s'. anonymiseFoldersRecurse E sep n pid' ppath' s2 = Some (Nil, s')"
      by (intro Suc.IH)
  next
    show "\<forall>t0 \<in> set T0. childOf pid t0 \<longrightarrow> card (below T0 (fid t0)) < n"
    proof (intro ballI impI)
      fix t0 assume t0: "t0 \<in> set T0" "childOf pid t0"
      with Suc.prems(1) have "t0 ''parent_folder_id'' = VInt pid"
        by (simp add: childOf_def val_eq_VInt)
      with t0(1) have "(fid t0, pid) \<in> parentRel T0" by (auto simp: parentRel_def)
      from below_child[OF wf this] Suc.prems(2) show "card (below T0 (fid t0)) < n" by simp
    qed
  qed
qed

lemma anonymiseFolders_returns:
  assumes wf: "foldersWf (tables s folderTable)" and nf: "\<forall>k. \<not> failing E k"
    and fuel: "length (tables s folderTable) < fuel"
  shows "\<exists>s'. anonymiseFolders E sep fuel s = Some (Nil, s')"
proof -
  let ?T0 = "tables s folderTable"
  from fuel obtain n where n: "fuel = Suc n" "length ?T0 \<le> n" by (cases fuel) auto
  have "\<exists>s'. anonymiseFoldersRecurse E sep (Suc n) 0 [] s = Some (Nil, s')"
  proof (rule recurse_Suc_succeeds[OF wf nf _ _ pathsOnly_refl])
    fix q pid' ppath' and s2 :: st
    assume a: "q \<in> set ?T0" "fid q = pid'" "card (below ?T0 pid') < n"
      "pathsOnly ?T0 (tables s2 folderTable)"
    moreover from this(1,2) wf have "pid' \<noteq> 0" by (auto simp: foldersWf_def)
    ultimately show "\<exists>s'. anonymiseFoldersRecurse E sep n pid' ppath' s2 = Some (Nil, s')"
      by (intro recurse_succeeds[OF wf nf])
  next
    show "\<forall>t0 \<in> set ?T0. childOf 0 t0 \<longrightarrow> card (below ?T0 (fid t0)) < n"
      using below_row[OF wf] n(2) by (auto intro: less_le_trans)
  qed
  then obtain s' where "anonymiseFoldersRecurse E sep fuel 0 [] s = Some (Nil, s')"
    using n(1) by blast
  then have "anonymiseFolders E sep fuel s = Some (Nil, s')"
    by (simp add: anonymiseFolders_def WithTxn_def lift_def drop_locals_def)
  then show ?thesis by blast
qed

text \<open>
  C5: when the folder table is a forest and the folder stage returns \<open>nil\<close>, every
  root folder has the text of its own identifier as path and every other folder \<open>f\<close>,
  with parent \<open>p\<close>, has the path of \<open>p\<close>, the separator and the text of the identifier
  of \<open>f\<close> as path, at every depth; identifiers and parents are as before. The stage
  does return \<open>nil\<close> when no statement sent to the working store fails and the bound
  on the depth of the recursion exceeds the number of folders.
\<close>

theorem folder_tree_paths:
  assumes wf: "foldersWf (tables s folderTable)"
  shows "(anonymiseFolders E sep fuel s = Some (Nil, s') \<longrightarrow>
            tree_paths sep (tables s' folderTable)
            \<and> map (\<lambda>r. (r ''id'', r ''parent_folder_id'')) (tables s' folderTable)
                = map (\<lambda>r. (r ''id'', r ''parent_folder_id'')) (tables s folderTable))
     \<and> ((\<forall>k. \<not> failing E k) \<and> length (tables s folderTable) < fuel \<longrightarrow>
            (\<exists>s1. anonymiseFolders E sep fuel s = Some (Nil, s1)))"
proof (rule conjI)
  show "anonymiseFolders E sep fuel s = Some (Nil, s') \<longrightarrow>
            tree_paths sep (tables s' folderTable)
            \<and> map (\<lambda>r. (r ''id'', r ''parent_folder_id'')) (tables s' folderTable)
                = map (\<lambda>r. (r ''id'', r ''parent_folder_id'')) (tables s folderTable)"
  proof (rule impI)
    assume "anonymiseFolders E sep fuel s = Some (Nil, s')"
    from tree_paths_of_run[OF wf this] show "tree_paths sep (tables s' folderTable)
            \<and> map (\<lambda>r. (r ''id'', r ''parent_folder_id'')) (tables s' folderTable)
                = map (\<lambda>r. (r ''id'', r ''parent_folder_id'')) (tables s folderTable)" .
  qed
  show "(\<forall>k. \<not> failing E k) \<and> length (tables s folderTable) < fuel \<longrightarrow>
            (\<exists>s1. anonymiseFolders E sep fuel s = Some (Nil, s1))"
  proof (rule impI)
    assume a: "(\<forall>k. \<not> failing E k) \<and> length (tables s folderTable) < fuel"
    then have nf: "\<forall>k. \<not> failing E k" and len: "length (tables s folderTable) < fuel"
      by simp_all
    from anonymiseFolders_returns[OF wf nf len]
    show "\<exists>s1. anonymiseFolders E sep fuel s = Some (Nil, s1)" .
  qed
qed

lemma folders_example_run:
  "map_option (\<lambda>x. (fst x, map (\<lambda>r. r ''path'') (tables (snd x) folderTable)))
     (anonymiseFolders env0 ''/'' (Suc (Suc (Suc (Suc 0)))) (start folders_example))
   = Some (Nil, [VText ''5'', VText ''5/9'', VText ''5/9/12''])"
  by (simp add: run_defs example_defs folders_example_def)

lemma folders_example_wf: "foldersWf (tables (start folders_example) folderTable)"
proof -
  let ?T = "tables (start folders_example) folderTable"
  let ?a = "mkRow [(''id'', VInt 5), (''path'', VText ''/home/a'')]"
  let ?b = "mkRow [(''id'', VInt 9), (''parent_folder_id'', VInt 5), (''path'', VText ''/home/a/b'')]"
  let ?c = "mkRow [(''id'', VInt 12), (''parent_folder_id'', VInt 9), (''path'', VText ''/home/a/b/c'')]"
  have T: "?T = [?a, ?b, ?c]"
    by (simp add: start_def folders_example_def mkDb_def folderTable_def)
  have f: "fid ?a = 5" "fid ?b = 9" "fid ?c = 12" by (simp_all add: fid_def mkRow_def)
  have pa: "?a ''parent_folder_id'' = VNull" by (simp add: mkRow_def)
  have "(fid ?b, 5) \<in> parentRel ?T" unfolding parentRel_def T
    by (rule CollectI, rule exI[of _ ?b], rule exI[of _ 5]) (simp add: mkRow_def)
  then have b5: "(9, 5) \<in> parentRel ?T" by (simp add: f)
  have "(fid ?c, 9) \<in> parentRel ?T" unfolding parentRel_def T
    by (rule CollectI, rule exI[of _ ?c], rule exI[of _ 9]) (simp add: mkRow_def)
  then have c9: "(12, 9) \<in> parentRel ?T" by (simp add: f)
  have r5: "(5, 5) \<in> (parentRel ?T)\<^sup>*" by simp
  from b5 have r9: "(9, 5) \<in> (parentRel ?T)\<^sup>*" by (rule r_into_rtrancl)
  from c9 r9 have r12: "(12, 5) \<in> (parentRel ?T)\<^sup>*" by (rule converse_rtrancl_into_rtrancl)
  have reach: "\<exists>q \<in> set ?T. q ''parent_folder_id'' = VNull \<and> (fid r, fid q) \<in> (parentRel ?T)\<^sup>*"
    if "r \<in> set ?T" for r
  proof -
    have a: "?a \<in> set ?T" by (simp add: T)
    from that have "r = ?a \<or> r = ?b \<or> r = ?c" by (simp add: T)
    then have "(fid r, fid ?a) \<in> (parentRel ?T)\<^sup>*"
      using r5 r9 r12 f by auto
    with a pa show ?thesis by (intro bexI[of _ ?a] conjI)
  qed
  have typed: "\<forall>r \<in> set ?T. isInt (r ''id'') \<and> fid r \<noteq> 0
        \<and> (r ''parent_folder_id'' = VNull \<or> isInt (r ''parent_folder_id''))"
    by (simp add: T fid_def mkRow_def)
  have dist: "distinct (map fid ?T)" by (simp add: T fid_def mkRow_def)
  show ?thesis unfolding foldersWf_def
  proof (intro conjI)
    show "\<forall>r \<in> set ?T. isInt (r ''id'') \<and> fid r \<noteq> 0
        \<and> (r ''parent_folder_id'' = VNull \<or> isInt (r ''parent_folder_id''))" by (rule typed)
    show "distinct (map fid ?T)" by (rule dist)
    show "\<forall>r \<in> set ?T. \<exists>q \<in> set ?T. q ''parent_folder_id'' = VNull
        \<and> (fid r, fid q) \<in> (parentRel ?T)\<^sup>*" using reach by (rule ballI)
  qed
qed

theorem folder_tree_paths_witness:
  "foldersWf (tables (start folders_example) folderTable)
   \<and> (\<forall>k. \<not> failing env0 k)
   \<and> length (tables (start folders_example) folderTable) < Suc (Suc (Suc (Suc 0)))
   \<and> (\<exists>s'. anonymiseFolders env0 ''/'' (Suc (Suc (Suc (Suc 0)))) (start folders_example) = Some (Nil, s')
        \<and> tree_paths ''/'' (tables s' folderTable)
        \<and> map (\<lambda>r. r ''path'') (tables s' folderTable)
            = [VText ''5'', VText ''5/9'', VText ''5/9/12''])"
proof -
  have nf: "\<forall>k. \<not> failing env0 k" by (simp add: env0_def never_def)
  have len: "length (tables (start folders_example) folderTable) < Suc (Suc (Suc (Suc 0)))"
    by (simp add: start_def folders_example_def mkDb_def folderTable_def)
  from folders_example_run obtain s' where
    a: "anonymiseFolders env0 ''/'' (Suc (Suc (Suc (Suc 0)))) (start folders_example) = Some (Nil, s')"
    and b: "map (\<lambda>r. r ''path'') (tables s' folderTable) = [VText ''5'', VText ''5/9'', VText ''5/9/12'']"
    by auto
  note inst = folder_tree_paths[OF folders_example_wf, where E = env0 and sep = "''/''"
      and fuel = "Suc (Suc (Suc (Suc 0)))" and s' = s']
  from inst[THEN conjunct1, THEN mp, OF a] have t: "tree_paths ''/'' (tables s' folderTable)"
    by (rule conjunct1)
  have r: "\<exists>s'. anonymiseFolders env0 ''/'' (Suc (Suc (Suc (Suc 0)))) (start folders_example) = Some (Nil, s')
        \<and> tree_paths ''/'' (tables s' folderTable)
        \<and> map (\<lambda>r. r ''path'') (tables s' folderTable)
            = [VText ''5'', VText ''5/9'', VText ''5/9/12'']"
    by (rule exI[of _ s'], rule conjI[OF a conjI[OF t b]])
  show ?thesis by (rule conjI[OF folders_example_wf conjI[OF nf conjI[OF len r]]])
qed

end
